theory Spec2Isabelle
  imports Complex_Main "HOL-Library.Word"
begin

section \<open>Strings and paths\<close>

text \<open>
  Python strings are modelled as HOL strings; a character stands for a code point
  below 256. Paths follow \<^verbatim>\<open>posixpath\<close>: the separator is the slash.
\<close>

datatype error =
    IndexError
  | ZeroDivisionError
  | ConnectionError nat
  | RequestException
  | OSError
  | ValueError
  | FileExistsError
  | FileNotFoundError
  | NotADirectoryError

text \<open>\<^verbatim>\<open>s.split(c)\<close> with an explicit separator: one piece more than there are separators.\<close>

fun split_on :: "char \<Rightarrow> string \<Rightarrow> string list" where
  "split_on c [] = [[]]"
| "split_on c (x # xs) =
     (if x = c then [] # split_on c xs
      else (case split_on c xs of
              [] \<Rightarrow> [[x]]
            | w # ws \<Rightarrow> (x # w) # ws))"

text \<open>\<^verbatim>\<open>str.isspace\<close> on the code points below 256.\<close>

definition py_isspace :: "char \<Rightarrow> bool" where
  "py_isspace c = (of_char c \<in> {9, 10, 11, 12, 13, 28, 29, 30, 31, 32, 133, 160 :: nat})"

text \<open>\<^verbatim>\<open>s.split()\<close> without a separator: the maximal runs of non-space characters.\<close>

fun py_split :: "string \<Rightarrow> string list" where
  "py_split [] = []"
| "py_split (c # cs) =
     (if py_isspace c then py_split cs
      else (case cs of
              [] \<Rightarrow> [[c]]
            | d # _ \<Rightarrow>
                if py_isspace d then [c] # py_split cs
                else (case py_split cs of
                        [] \<Rightarrow> [[c]]
                      | w # ws \<Rightarrow> (c # w) # ws)))"

text \<open>\<^verbatim>\<open>xs[0]\<close> raises IndexError on the empty list.\<close>

definition first :: "'a list \<Rightarrow> error + 'a" where
  "first xs = (case xs of [] \<Rightarrow> Inl IndexError | x # _ \<Rightarrow> Inr x)"

text \<open>\<^verbatim>\<open>os.path.join(a, b)\<close>, \<^verbatim>\<open>os.path.basename\<close> and \<^verbatim>\<open>os.path.dirname\<close>.\<close>

definition path_join :: "string \<Rightarrow> string \<Rightarrow> string" where
  "path_join a b =
     (if b \<noteq> [] \<and> hd b = CHR ''/'' then b
      else if a = [] \<or> last a = CHR ''/'' then a @ b
      else a @ ''/'' @ b)"

definition basename :: "string \<Rightarrow> string" where
  "basename p = last (split_on CHR ''/'' p)"

definition rstrip_sep :: "string \<Rightarrow> string" where
  "rstrip_sep s = rev (dropWhile (\<lambda>c. c = CHR ''/'') (rev s))"

definition dirname :: "string \<Rightarrow> string" where
  "dirname p =
     (let head = take (length p - length (basename p)) p
      in if head \<noteq> [] \<and> head \<noteq> replicate (length head) CHR ''/'' then rstrip_sep head else head)"

text \<open>The character class of \<^verbatim>\<open>re.sub(r'[<>:"/\\|\?\*]', ' ', s)\<close>.\<close>

definition illegal_chars :: "char list" where
  "illegal_chars =
     [CHR ''<'', CHR ''>'', CHR '':'', CHR 0x22, CHR ''/'', CHR 0x5C, CHR ''|'', CHR ''?'', CHR ''*'']"

definition re_sub_illegal :: "string \<Rightarrow> string" where
  "re_sub_illegal s = map (\<lambda>c. if c \<in> set illegal_chars then CHR '' '' else c) s"

section \<open>The file system\<close>

text \<open>
  The file system maps a path, as the program writes it, to a directory or to a file
  with its bytes. Two spellings of one location are two paths here.
\<close>

type_synonym bytes = "8 word list"

datatype node = Dir | File bytes

type_synonym fsys = "string \<rightharpoonup> node"

definition path_exists :: "fsys \<Rightarrow> string \<Rightarrow> bool" where
  "path_exists fs p = (fs p \<noteq> None)"

definition isdir :: "fsys \<Rightarrow> string \<Rightarrow> bool" where
  "isdir fs p = (fs p = Some Dir)"

section \<open>Destination paths\<close>

text \<open>
  Modelled from the spec: the class \<^verbatim>\<open>PixivIllustModel\<close> is declared in \<^verbatim>\<open>model.py\<close>,
  which is not among the sources; the spec gives an illustration a user id, a user
  name, a rank and its image URLs. The program reads the first three as strings.
\<close>

record illust =
  user_id :: string
  user_name :: string
  rank :: string
  image_urls :: "string list"

text \<open>
  \<^verbatim>\<open>cur_user_ids\<close> of \<^verbatim>\<open>get_filepath\<close>: the leading token of every directory's base
  name; a base name without a token raises IndexError.
\<close>

fun leading_tokens :: "string list \<Rightarrow> error + string list" where
  "leading_tokens [] = Inr []"
| "leading_tokens (d # ds) =
     (case first (py_split (basename d)) of
        Inl e \<Rightarrow> Inl e
      | Inr t \<Rightarrow> (case leading_tokens ds of Inl e \<Rightarrow> Inl e | Inr ts \<Rightarrow> Inr (t # ts)))"

text \<open>
  \<^verbatim>\<open>get_filepath\<close>. The first two arguments are the environment's answers:
  \<open>current_path\<close> is what \<^verbatim>\<open>get_default_save_path()\<close> returns (every caller has created
  that directory before planning starts) and \<open>names\<close> is \<^verbatim>\<open>os.listdir(current_path)\<close>.
\<close>

definition get_dir_name :: "string \<Rightarrow> string list \<Rightarrow> fsys \<Rightarrow> illust \<Rightarrow> error + string" where
  "get_dir_name current_path names fs illustration =
     (let cur_dirs = filter (isdir fs) (map (path_join current_path) names)
      in case leading_tokens cur_dirs of
           Inl e \<Rightarrow> Inl e
         | Inr cur_user_ids \<Rightarrow>
             if user_id illustration \<notin> set cur_user_ids
             then Inr (re_sub_illegal (user_id illustration @ '' '' @ user_name illustration))
             else first (filter (\<lambda>i. first (py_split (basename i)) = Inr (user_id illustration))
                           cur_dirs))"

definition get_filepath ::
  "string \<Rightarrow> string list \<Rightarrow> fsys \<Rightarrow> string \<Rightarrow> illust \<Rightarrow> string \<Rightarrow> bool \<Rightarrow> bool \<Rightarrow>
   error + (string \<times> string)" where
  "get_filepath current_path names fs url illustration save_path add_user_folder add_rank =
     (case (if add_user_folder
            then (case get_dir_name current_path names fs illustration of
                    Inl e \<Rightarrow> Inl e
                  | Inr dir_name \<Rightarrow> Inr (path_join save_path dir_name))
            else Inr save_path) of
        Inl e \<Rightarrow> Inl e
      | Inr save_path' \<Rightarrow>
          (let filename0 = last (split_on CHR ''/'' url);
               filename = (if add_rank then rank illustration @ '' - '' @ filename0 else filename0)
           in Inr (filename, path_join save_path' filename)))"

section \<open>The planner\<close>

text \<open>
  One entry of the queue: the dictionary with the keys url, file and path (\<open>file\<close> is
  a keyword here, hence the prime).
\<close>

record task =
  url :: string
  file' :: string
  path :: string

text \<open>
  \<^verbatim>\<open>check_files\<close> changes the list it is given and the URL lists of the illustrations in
  it. An illustration is therefore an object: the list holds object identities and
  \<open>objects\<close> gives each identity its current value. \<open>planned\<close> is the queue being
  filled. \<^verbatim>\<open>list.remove\<close> takes out the first equal element and raises ValueError when
  there is none; two illustrations are equal when they are the same object.
\<close>

record planning =
  illustrations :: "nat list"
  objects :: "nat \<Rightarrow> illust"
  planned :: "task list"
  count :: nat

text \<open>
  The inner loop, over a copy of the illustration's URL list. \<open>gf\<close> stands for
  \<^verbatim>\<open>get_filepath\<close> with the layout arguments fixed and \<open>ex\<close> for \<^verbatim>\<open>os.path.exists\<close>.
\<close>

fun check_urls ::
  "(string \<Rightarrow> illust \<Rightarrow> error + (string \<times> string)) \<Rightarrow> (string \<Rightarrow> bool) \<Rightarrow>
   nat \<Rightarrow> string list \<Rightarrow> planning \<Rightarrow> error + planning" where
  "check_urls gf ex i [] pl = Inr pl"
| "check_urls gf ex i (u # us) pl =
     (case gf u (objects pl i) of
        Inl e \<Rightarrow> Inl e
      | Inr (filename, filepath) \<Rightarrow>
          if ex filepath then
            (if u \<in> set (image_urls (objects pl i))
             then check_urls gf ex i us
                    (pl\<lparr>objects := (objects pl)
                          (i := (objects pl i)\<lparr>image_urls := remove1 u (image_urls (objects pl i))\<rparr>)\<rparr>)
             else Inl ValueError)
          else check_urls gf ex i us
                 (pl\<lparr>planned := planned pl @ [\<lparr>url = u, file' = filename, path = filepath\<rparr>],
                     count := count pl + 1\<rparr>))"

text \<open>The outer loop, over a copy of the list of illustrations.\<close>

fun check_illustrations ::
  "(string \<Rightarrow> illust \<Rightarrow> error + (string \<times> string)) \<Rightarrow> (string \<Rightarrow> bool) \<Rightarrow>
   nat list \<Rightarrow> planning \<Rightarrow> error + planning" where
  "check_illustrations gf ex [] pl = Inr pl"
| "check_illustrations gf ex (i # rest) pl =
     (if image_urls (objects pl i) = [] then
        (if i \<in> set (illustrations pl)
         then check_illustrations gf ex rest (pl\<lparr>illustrations := remove1 i (illustrations pl)\<rparr>)
         else Inl ValueError)
      else (case check_urls gf ex i (image_urls (objects pl i)) pl of
              Inl e \<Rightarrow> Inl e
            | Inr pl' \<Rightarrow> check_illustrations gf ex rest pl'))"

text \<open>
  \<^verbatim>\<open>check_files\<close>. The result holds the queue and the count the program returns, and the
  list and the objects as the call leaves them.
\<close>

definition check_files ::
  "string \<Rightarrow> string list \<Rightarrow> fsys \<Rightarrow> nat list \<Rightarrow> (nat \<Rightarrow> illust) \<Rightarrow> string \<Rightarrow> bool \<Rightarrow> bool \<Rightarrow>
   error + planning" where
  "check_files current_path names disk ills objs save_path add_user_folder add_rank =
     (let pl = \<lparr>illustrations = ills, objects = objs, planned = [], count = 0\<rparr>
      in if ills \<noteq> [] then
           check_illustrations
             (\<lambda>u illustration.
                get_filepath current_path names disk u illustration save_path add_user_folder add_rank)
             (path_exists disk) ills pl
         else Inr pl)"

text \<open>Whether the destination computed for a URL of an illustration exists.\<close>

definition dest_exists ::
  "string \<Rightarrow> string list \<Rightarrow> fsys \<Rightarrow> string \<Rightarrow> bool \<Rightarrow> bool \<Rightarrow> illust \<Rightarrow> string \<Rightarrow> bool" where
  "dest_exists current_path names disk save_path add_user_folder add_rank illustration u =
     (case get_filepath current_path names disk u illustration save_path add_user_folder add_rank of
        Inl e \<Rightarrow> False
      | Inr (filename, filepath) \<Rightarrow> path_exists disk filepath)"

text \<open>The same test for any function that computes the destination.\<close>

definition exists_for :: "(string \<Rightarrow> illust \<Rightarrow> error + (string \<times> string)) \<Rightarrow> (string \<Rightarrow> bool) \<Rightarrow> illust \<Rightarrow> string \<Rightarrow> bool" where
  "exists_for gf ex ill u = (case gf u ill of Inl e \<Rightarrow> False | Inr (filename, filepath) \<Rightarrow> ex filepath)"

section \<open>The download executor\<close>

text \<open>
  What the network answers to one GET: nothing (the connection fails or times out and
  \<^verbatim>\<open>requests.get\<close> raises), or a response with its status, its content-length header if
  it has one, and the chunks \<^verbatim>\<open>iter_content\<close> yields; \<open>broken\<close> says that the connection
  fails after the last of these chunks, so that the iteration raises.
\<close>

record response =
  status_code :: nat
  content_length :: "string option"
  chunks :: "bytes list"
  broken :: bool

datatype reply = NoReply | Reply response

text \<open>\<^verbatim>\<open>requests.codes.ok\<close>, a constant of the requests library.\<close>

definition requests_codes_ok :: nat where
  "requests_codes_ok = 200"

text \<open>
  What the program does that can be observed: a GET request, the two diagnostics of the
  worker, the status line of the reporter, and the exception that ends a thread when
  nothing catches it.
\<close>

datatype event =
    Request string
  | RetryMsg error string
  | CanceledMsg string
  | StatusLine string
  | Uncaught error

text \<open>
  The shared state: the file system, the module's globals, the queue with the count of
  unfinished tasks that \<^verbatim>\<open>Queue.join\<close> waits for, and the trace of events.
\<close>

record state =
  fs :: fsys
  Global_Download :: nat
  finished_download :: nat
  queue_size :: nat
  error_count :: "string \<rightharpoonup> nat"
  download_queue :: "task list"
  unfinished_tasks :: nat
  trace :: "event list"

definition MAX_ERROR_COUNT :: nat where
  "MAX_ERROR_COUNT = 5"

text \<open>The loop over \<^verbatim>\<open>iter_content\<close>: every chunk is kept and its length is counted.\<close>

fun receive :: "bytes list \<Rightarrow> bytes list \<times> nat \<Rightarrow> bytes list \<times> nat" where
  "receive [] (data, n) = (data, n)"
| "receive (chunk # rest) (data, n) = receive rest (data @ [chunk], n + length chunk)"

text \<open>
  \<^verbatim>\<open>download_file\<close>, given the network's answer. The result is the exception raised, if
  any, and the state left behind. Opening a directory for writing raises; the directory
  of the path is taken to exist (the worker creates it first).
\<close>

definition download_file :: "reply \<Rightarrow> string \<Rightarrow> string \<Rightarrow> state \<Rightarrow> (error + unit) \<times> state" where
  "download_file rep u filepath s =
     (let s1 = s\<lparr>trace := trace s @ [Request u]\<rparr>
      in case rep of
           NoReply \<Rightarrow> (Inl RequestException, s1)
         | Reply r \<Rightarrow>
             if status_code r = requests_codes_ok then
               (case content_length r of
                  None \<Rightarrow> (Inr (), s1)
                | Some [] \<Rightarrow> (Inr (), s1)
                | Some (c # cs) \<Rightarrow>
                    (let (data, n) = receive (chunks r) ([], Global_Download s1);
                         s2 = s1\<lparr>Global_Download := n\<rparr>
                     in if broken r then (Inl RequestException, s2)
                        else if fs s2 filepath = Some Dir then (Inl OSError, s2)
                        else (Inr (), s2\<lparr>fs := (fs s2)(filepath \<mapsto> File (concat data))\<rparr>)))
             else (Inl (ConnectionError (status_code r)), s1))"

section \<open>The worker\<close>

definition get_count :: "(string \<rightharpoonup> nat) \<Rightarrow> string \<Rightarrow> nat" where
  "get_count ec u = (case ec u of None \<Rightarrow> 0 | Some c \<Rightarrow> c)"

text \<open>
  \<^verbatim>\<open>os.mkdir\<close> and \<^verbatim>\<open>os.makedirs\<close>, as the standard library has them. The root exists
  without being listed in the file system, and a relative name lies in the current
  directory, which exists too. \<open>head_tail\<close> is what \<^verbatim>\<open>makedirs\<close> makes of
  \<^verbatim>\<open>os.path.split\<close>: a name that ends in a slash is split once more. Every missing
  directory above the name is created first, and \<^verbatim>\<open>FileExistsError\<close> is caught for these
  only; the file system is returned with the result, since directories made before an
  error stay. Names are compared as they are written, and permissions are left out.
\<close>

definition is_root :: "string \<Rightarrow> bool" where
  "is_root p = (p \<noteq> [] \<and> p = replicate (length p) CHR ''/'')"

definition mkdir :: "string \<Rightarrow> fsys \<Rightarrow> (error + unit) \<times> fsys" where
  "mkdir name f =
     (if name = [] then (Inl FileNotFoundError, f)
      else if f name \<noteq> None \<or> is_root name then (Inl FileExistsError, f)
      else if dirname name = [] \<or> is_root (dirname name) \<or> f (dirname name) = Some Dir
      then (Inr (), f(name \<mapsto> Dir))
      else if f (dirname name) = None then (Inl FileNotFoundError, f)
      else (Inl NotADirectoryError, f))"

definition head_tail :: "string \<Rightarrow> string \<times> string" where
  "head_tail name =
     (if basename name = [] then (dirname (dirname name), basename (dirname name))
      else (dirname name, basename name))"

lemma length_last_split_on: "length (last (split_on c s)) \<le> length s"
proof (induction s)
  case Nil
  show ?case by simp
next
  case (Cons x xs)
  then show ?case by (cases "split_on c xs") (auto split: if_splits)
qed

lemma length_rstrip_sep: "length (rstrip_sep s) \<le> length s"
  by (simp add: rstrip_sep_def) (metis length_dropWhile_le length_rev)

lemma length_dirname: "length (dirname p) + length (basename p) \<le> length p"
proof -
  have "length (basename p) \<le> length p"
    by (simp add: basename_def length_last_split_on)
  moreover have "length (rstrip_sep (take (length p - length (basename p)) p))
      \<le> length p - length (basename p)"
    using length_rstrip_sep [of "take (length p - length (basename p)) p"] by simp
  ultimately show ?thesis by (auto simp: dirname_def Let_def)
qed

lemma head_tail_shorter:
  "snd (head_tail name) \<noteq> [] \<Longrightarrow> length (fst (head_tail name)) < length name"
proof (cases "basename name = []")
  case True
  assume "snd (head_tail name) \<noteq> []"
  with True have "basename (dirname name) \<noteq> []" by (simp add: head_tail_def)
  then have "length (dirname (dirname name)) < length (dirname name)"
    using length_dirname [of "dirname name"] by (cases "basename (dirname name)") auto
  moreover have "length (dirname name) \<le> length name" using length_dirname [of name] by simp
  ultimately show ?thesis using True by (simp add: head_tail_def)
next
  case False
  then show ?thesis using length_dirname [of name] by (cases "basename name") (auto simp: head_tail_def)
qed

function makedirs :: "string \<Rightarrow> fsys \<Rightarrow> (error + unit) \<times> fsys" where
  "makedirs name f =
     (if fst (head_tail name) \<noteq> [] \<and> snd (head_tail name) \<noteq> []
         \<and> \<not> (is_root (fst (head_tail name)) \<or> path_exists f (fst (head_tail name)))
      then (case makedirs (fst (head_tail name)) f of
              (Inl e, f') \<Rightarrow>
                if e = FileExistsError
                then (if snd (head_tail name) = ''.'' then (Inr (), f') else mkdir name f')
                else (Inl e, f')
            | (Inr _, f') \<Rightarrow>
                if snd (head_tail name) = ''.'' then (Inr (), f') else mkdir name f')
      else mkdir name f)"
  by pat_completeness auto
termination
  by (relation "measure (\<lambda>(name, f). length name)") (auto simp: head_tail_shorter)

declare makedirs.simps [simp del]

text \<open>
  The locked block of the worker: the directory is created when it does not exist.
\<close>

definition ensure_dir :: "string \<Rightarrow> fsys \<Rightarrow> (error + unit) \<times> fsys" where
  "ensure_dir d f = (if \<not> (is_root d \<or> path_exists f d) then makedirs d f else (Inr (), f))"

definition task_done :: "state \<Rightarrow> state" where
  "task_done s = s\<lparr>unfinished_tasks := unfinished_tasks s - 1\<rparr>"

text \<open>
  One turn of the loop of \<^verbatim>\<open>download_threading\<close>: the task at the head of the queue is
  taken and processed, \<open>rep\<close> being the network's answer should the turn send a request.
  On an empty queue \<^verbatim>\<open>get\<close> would block; the loop never takes a turn there. An error
  of \<^verbatim>\<open>os.makedirs\<close> is raised outside the \<^verbatim>\<open>try\<close>: it ends the thread, with the task off
  the queue and not marked done.
\<close>

definition worker_turn :: "reply \<Rightarrow> state \<Rightarrow> state" where
  "worker_turn rep s =
     (case download_queue s of
        [] \<Rightarrow> s
      | illustration # rest \<Rightarrow>
          (let s1 = s\<lparr>download_queue := rest\<rparr>;
               filepath = path illustration;
               filename = file' illustration;
               u = url illustration;
               count = get_count (error_count s1) u
           in if count < MAX_ERROR_COUNT then
                (if \<not> path_exists (fs s1) filepath then
                   (case ensure_dir (dirname filepath) (fs s1) of
                      (Inl e, f) \<Rightarrow> s1\<lparr>fs := f, trace := trace s1 @ [Uncaught e]\<rparr>
                    | (Inr _, f) \<Rightarrow>
                        (case download_file rep u filepath (s1\<lparr>fs := f\<rparr>) of
                           (Inr _, s3) \<Rightarrow>
                             task_done (s3\<lparr>finished_download := finished_download s3 + 1\<rparr>)
                         | (Inl e, s3) \<Rightarrow>
                             if count < MAX_ERROR_COUNT then
                               task_done
                                 (s3\<lparr>trace := trace s3 @ [RetryMsg e filename],
                                     download_queue := download_queue s3 @ [illustration],
                                     unfinished_tasks := unfinished_tasks s3 + 1,
                                     error_count := (error_count s3)(u \<mapsto> count + 1)\<rparr>)
                             else task_done s3))
                 else task_done s1)
              else task_done (s1\<lparr>trace := trace s1 @ [CanceledMsg u],
                                 finished_download := finished_download s1 + 1\<rparr>)))"

text \<open>The number of requests sent so far: the network's answers are numbered by it.\<close>

definition n_requests :: "state \<Rightarrow> nat" where
  "n_requests s = length (filter (\<lambda>e. case e of Request _ \<Rightarrow> True | _ \<Rightarrow> False) (trace s))"

text \<open>
  The states a run can pass through, whatever the network answers. The workers share
  the queue and take their turns one after another: a turn is one step on the shared
  state, and a state is looked at between two turns. The program reads the retry count,
  puts the task back and writes the count outside any lock; what two turns that overlap
  can do to the count is not part of this relation.
\<close>

inductive_set reach :: "state \<Rightarrow> state set" for s0 :: state where
  start: "s0 \<in> reach s0"
| turn: "s \<in> reach s0 \<Longrightarrow> download_queue s \<noteq> [] \<Longrightarrow> worker_turn rep s \<in> reach s0"

text \<open>The retries a queue may still cause: the measure under which the loop ends.\<close>

definition budget :: "state \<Rightarrow> nat" where
  "budget s = (\<Sum>t \<leftarrow> download_queue s. Suc (MAX_ERROR_COUNT - get_count (error_count s) (url t)))"

text \<open>The events that concern one URL: a request for it, and its retirement.\<close>

definition about :: "string \<Rightarrow> event \<Rightarrow> bool" where
  "about u e = (e = Request u \<or> e = CanceledMsg u)"

text \<open>The number of queued tasks of one URL.\<close>

definition queued :: "string \<Rightarrow> state \<Rightarrow> nat" where
  "queued u s = length (filter (\<lambda>t. url t = u) (download_queue s))"

text \<open>The numbers of retry messages and of retirement diagnostics printed so far.\<close>

definition retried :: "state \<Rightarrow> nat" where
  "retried s = length (filter (\<lambda>e. case e of RetryMsg _ _ \<Rightarrow> True | _ \<Rightarrow> False) (trace s))"

definition retired :: "state \<Rightarrow> nat" where
  "retired s = length (filter (\<lambda>e. case e of CanceledMsg _ \<Rightarrow> True | _ \<Rightarrow> False) (trace s))"

text \<open>The number of threads that an uncaught exception has ended.\<close>

definition uncaught :: "state \<Rightarrow> nat" where
  "uncaught s = length (filter (\<lambda>e. case e of Uncaught _ \<Rightarrow> True | _ \<Rightarrow> False) (trace s))"

text \<open>Every turn on a non-empty queue lowers the budget.\<close>

lemma download_file_frame:
  assumes "download_file rep u p s = (r, s')"
  shows "download_queue s' = download_queue s"
    and "error_count s' = error_count s"
    and "finished_download s' = finished_download s"
    and "queue_size s' = queue_size s"
    and "unfinished_tasks s' = unfinished_tasks s"
  using assms
  by (auto simp: download_file_def Let_def split: reply.splits if_splits option.splits list.splits prod.splits)

lemma budget_mono:
  assumes "\<And>u. get_count ec u \<le> get_count ec' u"
  shows "(\<Sum>t \<leftarrow> q. Suc (MAX_ERROR_COUNT - get_count ec' (url t)))
       \<le> (\<Sum>t \<leftarrow> q. Suc (MAX_ERROR_COUNT - get_count ec (url t)))"
proof (induction q)
  case Nil
  show ?case by simp
next
  case (Cons t q)
  have "MAX_ERROR_COUNT - get_count ec' (url t) \<le> MAX_ERROR_COUNT - get_count ec (url t)"
    using assms [of "url t"] by arith
  with Cons show ?case by simp
qed

lemma worker_turn_cases:
  assumes q: "download_queue s = t # rest"
  obtains
    (retire) "\<not> get_count (error_count s) (url t) < MAX_ERROR_COUNT"
      "worker_turn rep s =
         s\<lparr>download_queue := rest, trace := trace s @ [CanceledMsg (url t)],
           finished_download := finished_download s + 1,
           unfinished_tasks := unfinished_tasks s - 1\<rparr>"
  | (skip) "get_count (error_count s) (url t) < MAX_ERROR_COUNT" "path_exists (fs s) (path t)"
      "worker_turn rep s = s\<lparr>download_queue := rest, unfinished_tasks := unfinished_tasks s - 1\<rparr>"
  | (dies) e f where "get_count (error_count s) (url t) < MAX_ERROR_COUNT"
      "\<not> path_exists (fs s) (path t)"
      "ensure_dir (dirname (path t)) (fs s) = (Inl e, f)"
      "worker_turn rep s = s\<lparr>download_queue := rest, fs := f, trace := trace s @ [Uncaught e]\<rparr>"
  | (ok) x f s3 where "get_count (error_count s) (url t) < MAX_ERROR_COUNT"
      "\<not> path_exists (fs s) (path t)"
      "ensure_dir (dirname (path t)) (fs s) = (Inr (), f)"
      "download_file rep (url t) (path t) (s\<lparr>download_queue := rest, fs := f\<rparr>) = (Inr x, s3)"
      "worker_turn rep s =
         s3\<lparr>finished_download := finished_download s + 1,
            unfinished_tasks := unfinished_tasks s - 1\<rparr>"
  | (fail) e f s3 where "get_count (error_count s) (url t) < MAX_ERROR_COUNT"
      "\<not> path_exists (fs s) (path t)"
      "ensure_dir (dirname (path t)) (fs s) = (Inr (), f)"
      "download_file rep (url t) (path t) (s\<lparr>download_queue := rest, fs := f\<rparr>) = (Inl e, s3)"
      "worker_turn rep s =
         s3\<lparr>trace := trace s3 @ [RetryMsg e (file' t)],
            download_queue := rest @ [t],
            unfinished_tasks := unfinished_tasks s + 1 - 1,
            error_count := (error_count s)(url t \<mapsto> get_count (error_count s) (url t) + 1)\<rparr>"
proof -
  let ?c = "get_count (error_count s) (url t)"
  obtain m f where en: "ensure_dir (dirname (path t)) (fs s) = (m, f)"
    by (cases "ensure_dir (dirname (path t)) (fs s)") auto
  obtain r s3 where
    df: "download_file rep (url t) (path t) (s\<lparr>download_queue := rest, fs := f\<rparr>) = (r, s3)"
    by (cases "download_file rep (url t) (path t) (s\<lparr>download_queue := rest, fs := f\<rparr>)") auto
  have fr: "download_queue s3 = rest" "error_count s3 = error_count s"
    "finished_download s3 = finished_download s" "unfinished_tasks s3 = unfinished_tasks s"
    using download_file_frame [OF df] by auto
  consider (a) "\<not> ?c < MAX_ERROR_COUNT"
    | (b) "?c < MAX_ERROR_COUNT" "path_exists (fs s) (path t)"
    | (c) e where "?c < MAX_ERROR_COUNT" "\<not> path_exists (fs s) (path t)" "m = Inl e"
    | (d) x where "?c < MAX_ERROR_COUNT" "\<not> path_exists (fs s) (path t)" "m = Inr ()" "r = Inr x"
    | (e) e where "?c < MAX_ERROR_COUNT" "\<not> path_exists (fs s) (path t)" "m = Inr ()" "r = Inl e"
    by (cases m; cases r) auto
  then show thesis
  proof cases
    case a
    then show ?thesis using q by (intro retire) (simp_all add: worker_turn_def task_done_def Let_def)
  next
    case b
    then show ?thesis using q by (intro skip) (simp_all add: worker_turn_def task_done_def Let_def)
  next
    case (c e)
    have "worker_turn rep s = s\<lparr>download_queue := rest, fs := f, trace := trace s @ [Uncaught e]\<rparr>"
      using c q en by (simp add: worker_turn_def Let_def)
    with c en show ?thesis by (intro dies [of e f]) simp_all
  next
    case (d x)
    have "worker_turn rep s =
         s3\<lparr>finished_download := finished_download s + 1,
            unfinished_tasks := unfinished_tasks s - 1\<rparr>"
      using d q en df fr by (simp add: worker_turn_def task_done_def Let_def)
    with d en df show ?thesis by (intro ok [of f x s3]) simp_all
  next
    case (e e')
    have "worker_turn rep s =
         s3\<lparr>trace := trace s3 @ [RetryMsg e' (file' t)],
            download_queue := rest @ [t],
            unfinished_tasks := unfinished_tasks s + 1 - 1,
            error_count := (error_count s)(url t \<mapsto> ?c + 1)\<rparr>"
      using e q en df fr by (simp add: worker_turn_def task_done_def Let_def)
    with e en df show ?thesis by (intro fail [of f e' s3]) simp_all
  qed
qed

lemma worker_turn_budget:
  assumes "download_queue s \<noteq> []"
  shows "budget (worker_turn rep s) < budget s"
proof -
  from assms obtain t rest where q: "download_queue s = t # rest"
    by (cases "download_queue s") auto
  let ?c = "get_count (error_count s) (url t)"
  have base: "budget s = Suc (MAX_ERROR_COUNT - ?c)
      + (\<Sum>t \<leftarrow> rest. Suc (MAX_ERROR_COUNT - get_count (error_count s) (url t)))"
    by (simp add: budget_def q)
  from q show ?thesis
  proof (cases rule: worker_turn_cases [where rep = rep])
    case retire
    then show ?thesis using base by (simp add: budget_def)
  next
    case skip
    then show ?thesis using base by (simp add: budget_def)
  next
    case (dies e f)
    then show ?thesis using base by (simp add: budget_def)
  next
    case (ok x f s3)
    from download_file_frame(1,2) [OF ok(4)] ok(5) show ?thesis using base
      by (simp add: budget_def)
  next
    case (fail e f s3)
    let ?ec' = "(error_count s)(url t \<mapsto> ?c + 1)"
    have mono: "\<And>u. get_count (error_count s) u \<le> get_count ?ec' u"
      by (simp add: get_count_def)
    have "budget (worker_turn rep s)
        = (\<Sum>t \<leftarrow> rest. Suc (MAX_ERROR_COUNT - get_count ?ec' (url t)))
          + Suc (MAX_ERROR_COUNT - (?c + 1))"
      using fail(5) by (simp add: budget_def get_count_def)
    also have "\<dots> \<le> (\<Sum>t \<leftarrow> rest. Suc (MAX_ERROR_COUNT - get_count (error_count s) (url t)))
          + Suc (MAX_ERROR_COUNT - (?c + 1))"
      using budget_mono [OF mono] by simp
    also have "\<dots> < budget s" using base fail(1) by simp
    finally show ?thesis .
  qed
qed

text \<open>
  \<open>answer net s\<close> is the network's answer to the request the next turn may send:
  \<open>net n u\<close> answers a request for \<open>u\<close> sent after \<open>n\<close> earlier requests.
\<close>

definition answer :: "(nat \<Rightarrow> string \<Rightarrow> reply) \<Rightarrow> state \<Rightarrow> reply" where
  "answer net s = net (n_requests s) (url (hd (download_queue s)))"

text \<open>
  \<^verbatim>\<open>download_threading\<close>, the loop of one worker: it takes turns until the queue is empty
  or an uncaught exception ends it. The turns of the loop are not interleaved with those
  of another worker.
\<close>

function download_threading :: "(nat \<Rightarrow> string \<Rightarrow> reply) \<Rightarrow> state \<Rightarrow> state" where
  "download_threading net s =
     (if download_queue s = [] then s
      else if uncaught s < uncaught (worker_turn (answer net s) s)
      then worker_turn (answer net s) s
      else download_threading net (worker_turn (answer net s) s))"
  by pat_completeness auto
termination
  by (relation "measure (\<lambda>(net, s). budget s)") (auto simp: worker_turn_budget)

declare download_threading.simps [simp del]

section \<open>The progress reporter\<close>

text \<open>
  Python computes the speed in binary floating point. Here it is a real number, and the
  division, the logarithm, the power and the rounding are exact: the model agrees with
  the program where these operations are exact in floating point or far from a point
  where their rounding decides, and it says nothing sure elsewhere. \<open>round_half_even\<close>
  is the rounding of \<^verbatim>\<open>round\<close> and of the \<^verbatim>\<open>%f\<close> conversion: to the nearest, a tie to the
  even neighbour.
\<close>

definition round_half_even :: "real \<Rightarrow> int" where
  "round_half_even y =
     (let f = \<lfloor>y\<rfloor>; d = y - of_int f
      in if d < 1 / 2 then f else if 1 / 2 < d then f + 1 else if even f then f else f + 1)"

definition digit :: "nat \<Rightarrow> char" where
  "digit n = char_of (48 + n)"

text \<open>\<^verbatim>\<open>str(n)\<close> for a natural number.\<close>

function decimal :: "nat \<Rightarrow> string" where
  "decimal n = (if n < 10 then [digit n] else decimal (n div 10) @ [digit (n mod 10)])"
  by pat_completeness auto
termination
  by (relation "measure (\<lambda>n. n)") auto

declare decimal.simps [simp del]

text \<open>The conversion \<^verbatim>\<open>%w.2f\<close>: two decimals, padded on the left to the width \<open>w\<close>.\<close>

definition format_2f :: "nat \<Rightarrow> real \<Rightarrow> string" where
  "format_2f w x =
     (let q = nat (round_half_even (\<bar>x\<bar> * 100));
          body = (if x < 0 then ''-'' else '''')
                 @ decimal (q div 100) @ ''.'' @ [digit (q mod 100 div 10), digit (q mod 10)]
      in replicate (w - length body) CHR '' '' @ body)"

definition units :: "string list" where
  "units = ['' B'', ''KB'', ''MB'', ''GB'', ''TB'', ''PB'']"

text \<open>\<^verbatim>\<open>xs[i]\<close>: an index below zero counts from the end of the list.\<close>

definition py_index :: "'a list \<Rightarrow> int \<Rightarrow> error + 'a" where
  "py_index xs i =
     (if 0 \<le> i \<and> i < int (length xs) then Inr (xs ! nat i)
      else if i < 0 \<and> - int (length xs) \<le> i then Inr (xs ! nat (int (length xs) + i))
      else Inl IndexError)"

text \<open>
  \<^verbatim>\<open>get_speed\<close>: the byte counter is read and reset, then the speed is rendered. A zero
  \<open>t0\<close> raises ZeroDivisionError and the logarithm of a negative speed ValueError.
\<close>

definition get_speed :: "real \<Rightarrow> state \<Rightarrow> (error + string) \<times> state" where
  "get_speed t0 s =
     (let down = Global_Download s;
          s' = s\<lparr>Global_Download := 0\<rparr>
      in if t0 = 0 then (Inl ZeroDivisionError, s')
         else
           (let speed = real down / t0
            in if speed = 0 then (Inr (format_2f 8 0 @ '' /s''), s')
               else if speed < 0 then (Inl ValueError, s')
               else
                 (let unit = \<lfloor>log 1024 speed\<rfloor>;
                      speed' = speed / (1024 powi unit)
                  in case py_index units unit of
                       Inl e \<Rightarrow> (Inl e, s')
                     | Inr name \<Rightarrow> (Inr (format_2f 6 speed' @ '' '' @ name @ ''/s''), s'))))"

text \<open>
  One round of the loop of \<^verbatim>\<open>print_progress\<close>, \<open>t0\<close> being the time the round measures:
  the status line is built and written.
\<close>

definition progress_round :: "real \<Rightarrow> state \<Rightarrow> error + state" where
  "progress_round t0 s =
     (if queue_size s = 0 then Inl ZeroDivisionError
      else
        (let ratio = real (finished_download s) / real (queue_size s);
             number_of_sharp = nat (round_half_even (ratio * 50));
             number_of_space = 50 - number_of_sharp;
             percent = '' '' @ format_2f 6 (ratio * 100) @ ''% '';
             counts = ''] ('' @ decimal (finished_download s) @ ''/''
                      @ decimal (queue_size s) @ '')''
         in case get_speed t0 s of
              (Inl e, s') \<Rightarrow> Inl e
            | (Inr speed, s') \<Rightarrow>
                (let bar =
                   (if number_of_sharp < 21 then
                      replicate number_of_sharp CHR ''#''
                      @ replicate (number_of_space - 29) CHR '' '' @ percent
                      @ replicate 21 CHR '' ''
                    else if 29 < number_of_sharp then
                      replicate 21 CHR ''#'' @ percent
                      @ replicate (number_of_sharp - 29) CHR ''#''
                      @ replicate number_of_space CHR '' ''
                    else replicate 21 CHR ''#'' @ percent @ replicate 21 CHR '' '')
                 in Inr (s'\<lparr>trace := trace s'
                            @ [StatusLine ([CHR 0x0D] @ ''['' @ bar @ counts
                                           @ ''['' @ speed @ '']  '')]\<rparr>))))"

text \<open>
  The loop of \<^verbatim>\<open>print_progress\<close>: it goes on until the finished counter equals the queue
  size. \<open>clock k\<close> is the time the round number \<open>k\<close> measures. The loop may never end;
  the result is then \<open>None\<close>.
\<close>

partial_function (option) print_progress :: "(nat \<Rightarrow> real) \<Rightarrow> nat \<Rightarrow> state \<Rightarrow> (error + state) option" where
  "print_progress clock k s =
     (if finished_download s = queue_size s then Some (Inr s)
      else (case progress_round (clock k) s of
              Inl e \<Rightarrow> Some (Inl e)
            | Inr s' \<Rightarrow> print_progress clock (Suc k) s'))"

text \<open>
  \<^verbatim>\<open>start_and_wait_download_threading\<close>, in the schedule where each of the
  \<^verbatim>\<open>_THREADING_NUMBER\<close> workers runs its loop to the end before the next one starts, and
  the reporter looks when they are through: a worker that finds the queue empty returns
  at once, one that follows a worker ended by an exception goes on with the queue.
  \<^verbatim>\<open>join\<close> on the queue returns once no task is unfinished, \<^verbatim>\<open>join\<close> on the reporter
  once its loop has ended.
\<close>

definition THREADING_NUMBER :: nat where
  "THREADING_NUMBER = 10"

fun run_workers :: "nat \<Rightarrow> (nat \<Rightarrow> string \<Rightarrow> reply) \<Rightarrow> state \<Rightarrow> state" where
  "run_workers 0 net s = s"
| "run_workers (Suc n) net s = run_workers n net (download_threading net s)"

definition start_and_wait_download_threading ::
  "(nat \<Rightarrow> string \<Rightarrow> reply) \<Rightarrow> (nat \<Rightarrow> real) \<Rightarrow> state \<Rightarrow> (error + state) option" where
  "start_and_wait_download_threading net clock s =
     (let s' = run_workers THREADING_NUMBER net s
      in if unfinished_tasks s' = 0 then print_progress clock 0 s' else None)"

text \<open>
  \<^verbatim>\<open>download_illustrations\<close>, from the list of illustrations on. The run starts from the
  file system and the error map of \<open>s\<close>; the counters and the queue are set anew.
\<close>

definition download_illustrations ::
  "(nat \<Rightarrow> string \<Rightarrow> reply) \<Rightarrow> (nat \<Rightarrow> real) \<Rightarrow> string \<Rightarrow> string list \<Rightarrow> nat list \<Rightarrow>
   (nat \<Rightarrow> illust) \<Rightarrow> string \<Rightarrow> bool \<Rightarrow> bool \<Rightarrow> state \<Rightarrow> (error + state) option" where
  "download_illustrations net clock current_path names ills objs save_path add_user_folder
     add_rank s =
     (case check_files current_path names (fs s) ills objs save_path add_user_folder add_rank of
        Inl e \<Rightarrow> Some (Inl e)
      | Inr pl \<Rightarrow>
          if 0 < count pl then
            start_and_wait_download_threading net clock
              (s\<lparr>queue_size := count pl, finished_download := 0, Global_Download := 0,
                 download_queue := planned pl, unfinished_tasks := length (planned pl)\<rparr>)
          else Some (Inr s))"

section \<open>Properties\<close>

subsection \<open>Destination paths\<close>

lemma split_on_nonempty: "split_on c s \<noteq> []"
  by (induction s) (auto split: list.splits)

lemma split_on_single: "split_on c s = [w] \<Longrightarrow> c \<notin> set s"
proof (induction s arbitrary: w)
  case Nil
  show ?case by simp
next
  case (Cons x xs)
  obtain v vs where sp: "split_on c xs = v # vs"
    using split_on_nonempty [of c xs] by (cases "split_on c xs") auto
  from Cons.prems sp have xc: "x \<noteq> c" by (auto split: if_splits)
  with Cons.prems sp have "vs = []" by simp
  with sp Cons.IH have "c \<notin> set xs" by simp
  with xc show ?case by simp
qed

lemma split_on_many: "split_on c s = w # v # vs \<Longrightarrow> c \<in> set s"
proof (induction s arbitrary: w v vs)
  case Nil
  then show ?case by simp
next
  case (Cons x xs)
  show ?case
  proof (cases "x = c")
    case True
    then show ?thesis by simp
  next
    case False
    obtain u us where sp: "split_on c xs = u # us"
      using split_on_nonempty [of c xs] by (cases "split_on c xs") auto
    with Cons.prems False have "us = v # vs" by simp
    with sp Cons.IH have "c \<in> set xs" by simp
    then show ?thesis by simp
  qed
qed

lemma last_split_on: "last (split_on c s) = rev (takeWhile (\<lambda>x. x \<noteq> c) (rev s))"
proof (induction s)
  case Nil
  show ?case by simp
next
  case (Cons x xs)
  obtain w ws where sp: "split_on c xs = w # ws"
    using split_on_nonempty [of c xs] by (cases "split_on c xs") auto
  show ?case
  proof (cases "x = c")
    case True
    with Cons sp show ?thesis by (simp add: takeWhile_append)
  next
    case False
    show ?thesis
    proof (cases ws)
      case Nil
      with sp have "c \<notin> set xs" using split_on_single by fastforce
      then have "takeWhile (\<lambda>x. x \<noteq> c) (rev xs) = rev xs"
        by (auto simp: takeWhile_eq_all_conv)
      with Cons.IH sp False Nil \<open>c \<notin> set xs\<close> show ?thesis by (auto simp: takeWhile_append)
    next
      case (Cons v vs)
      with sp have "c \<in> set xs" using split_on_many by fastforce
      with Cons.IH sp False Cons show ?thesis by (auto simp: takeWhile_append)
    qed
  qed
qed

lemma first_py_split:
  "first (py_split s) =
     (case dropWhile py_isspace s of
        [] \<Rightarrow> Inl IndexError
      | w \<Rightarrow> Inr (takeWhile (\<lambda>c. \<not> py_isspace c) w))"
proof (induction s rule: py_split.induct)
  case 1
  show ?case by (simp add: first_def)
next
  case (2 c cs)
  show ?case
  proof (cases "py_isspace c")
    case True
    with 2(1) show ?thesis by simp
  next
    case False
    show ?thesis
    proof (cases cs)
      case Nil
      with False show ?thesis by (simp add: first_def)
    next
      case (Cons d ds)
      show ?thesis
      proof (cases "py_isspace d")
        case True
        with False Cons show ?thesis by (simp add: first_def)
      next
        case F: False
        from 2(3) [OF False Cons F] have
          "first (py_split cs) = Inr (takeWhile (\<lambda>c. \<not> py_isspace c) cs)"
          using Cons F by simp
        then obtain w ws where ps: "py_split cs = w # ws"
          and w: "w = takeWhile (\<lambda>c. \<not> py_isspace c) cs"
          by (auto simp: first_def split: list.splits)
        have "py_split (c # cs) = (c # w) # ws"
          using False Cons F ps by simp
        with False w show ?thesis by (simp add: first_def)
      qed
    qed
  qed
qed

lemma leading_tokens_Inr:
  "leading_tokens ds = Inr ts \<Longrightarrow>
   ts = map (\<lambda>d. takeWhile (\<lambda>c. \<not> py_isspace c) (dropWhile py_isspace (basename d))) ds"
proof (induction ds arbitrary: ts)
  case Nil
  then show ?case by simp
next
  case (Cons d ds)
  from Cons.prems obtain t ts' where
    t: "first (py_split (basename d)) = Inr t" and ts': "leading_tokens ds = Inr ts'"
    and ts: "ts = t # ts'"
    by (auto split: sum.splits)
  from t have "t = takeWhile (\<lambda>c. \<not> py_isspace c) (dropWhile py_isspace (basename d))"
    by (simp add: first_py_split split: list.splits)
  with Cons.IH [OF ts'] ts show ?case by simp
qed

lemma leading_tokens_returns:
  "(\<And>d. d \<in> set ds \<Longrightarrow> dropWhile py_isspace (basename d) \<noteq> []) \<Longrightarrow>
   \<exists>ts. leading_tokens ds = Inr ts"
proof (induction ds)
  case Nil
  show ?case by simp
next
  case (Cons d ds)
  from Cons.prems have "dropWhile py_isspace (basename d) \<noteq> []" by simp
  then obtain a as where "dropWhile py_isspace (basename d) = a # as"
    by (cases "dropWhile py_isspace (basename d)") auto
  then have "first (py_split (basename d)) = Inr (takeWhile (\<lambda>c. \<not> py_isspace c) (a # as))"
    by (simp add: first_py_split)
  moreover from Cons obtain ts where "leading_tokens ds = Inr ts" by auto
  ultimately show ?case by simp
qed

text \<open>
  C7. Whenever \<^verbatim>\<open>get_filepath\<close> returns, the file name is the part of the URL after its last
  slash, with the rank and \<^verbatim>\<open>' - '\<close> in front when the rank prefix is on. Without the user
  folder the file lies directly under the save path. With the user folder on, when no
  directory listed under the current path has the user id as the leading
  whitespace-delimited token of its name, the file lies under a new directory named by the
  user id, a space and the user name, every character among \<^verbatim>\<open><>:"/\|?*\<close> replaced by a space.
\<close>

theorem get_filepath_construction:
  assumes "get_filepath current_path names disk link illustration save_path add_user_folder add_rank
             = Inr (filename, filepath)"
  shows "filename = (if add_rank then rank illustration @ '' - '' else [])
                      @ rev (takeWhile (\<lambda>c. c \<noteq> CHR ''/'') (rev link))
       \<and> (\<not> add_user_folder \<longrightarrow> filepath = path_join save_path filename)
       \<and> (add_user_folder
            \<and> user_id illustration \<notin>
                (\<lambda>d. takeWhile (\<lambda>c. \<not> py_isspace c) (dropWhile py_isspace (basename d))) `
                  {d \<in> path_join current_path ` set names. disk d = Some Dir}
            \<longrightarrow> filepath =
                  path_join
                    (path_join save_path
                       (map (\<lambda>c. if c \<in> {CHR ''<'', CHR ''>'', CHR '':'', CHR 0x22, CHR ''/'',
                                            CHR 0x5C, CHR ''|'', CHR ''?'', CHR ''*''}
                                  then CHR '' '' else c)
                          (user_id illustration @ '' '' @ user_name illustration)))
                    filename)"
proof -
  let ?seg = "rev (takeWhile (\<lambda>c. c \<noteq> CHR ''/'') (rev link))"
  let ?fn = "(if add_rank then rank illustration @ '' - '' else []) @ ?seg"
  have fn: "filename = ?fn"
    using assms by (auto simp: get_filepath_def last_split_on Let_def split: sum.splits if_splits)
  have plain: "\<not> add_user_folder \<Longrightarrow> filepath = path_join save_path filename"
    using assms by (auto simp: get_filepath_def Let_def split: sum.splits if_splits)
  have folder: "filepath = path_join (path_join save_path
                   (re_sub_illegal (user_id illustration @ '' '' @ user_name illustration))) filename"
    if auf: "add_user_folder"
      and nomatch: "user_id illustration \<notin>
                (\<lambda>d. takeWhile (\<lambda>c. \<not> py_isspace c) (dropWhile py_isspace (basename d))) `
                  {d \<in> path_join current_path ` set names. disk d = Some Dir}"
  proof -
    let ?dirs = "filter (isdir disk) (map (path_join current_path) names)"
    from assms auf obtain dn where
      dn: "get_dir_name current_path names disk illustration = Inr dn"
      and fp: "filepath = path_join (path_join save_path dn) filename"
      by (auto simp: get_filepath_def Let_def split: sum.splits if_splits)
    from dn obtain ids where ids: "leading_tokens ?dirs = Inr ids"
      by (auto simp: get_dir_name_def Let_def split: sum.splits)
    have "set ids = (\<lambda>d. takeWhile (\<lambda>c. \<not> py_isspace c) (dropWhile py_isspace (basename d))) `
                  {d \<in> path_join current_path ` set names. disk d = Some Dir}"
      using leading_tokens_Inr [OF ids] by (auto simp: isdir_def)
    with nomatch have "user_id illustration \<notin> set ids" by simp
    with dn ids have "dn = re_sub_illegal (user_id illustration @ '' '' @ user_name illustration)"
      by (simp add: get_dir_name_def Let_def)
    with fp show ?thesis by simp
  qed
  have re: "re_sub_illegal s = map (\<lambda>c. if c \<in> {CHR ''<'', CHR ''>'', CHR '':'', CHR 0x22, CHR ''/'',
                                            CHR 0x5C, CHR ''|'', CHR ''?'', CHR ''*''}
                                  then CHR '' '' else c) s" for s
    by (simp add: re_sub_illegal_def illegal_chars_def)
  show ?thesis using fn plain folder unfolding re by blast
qed

theorem get_filepath_construction_witness:
  "get_filepath ''/home/p/illustrations'' [''123 alice'', ''notes.txt'']
     [''/home/p/illustrations/123 alice'' \<mapsto> Dir,
      ''/home/p/illustrations/notes.txt'' \<mapsto> File []]
     ''http://i.pximg.net/img/11_p0.png''
     \<lparr>user_id = ''456'', user_name = ''b:ob?'', rank = ''7'', image_urls = []\<rparr>
     ''/home/p/illustrations'' True True
   = Inr (''7 - 11_p0.png'', ''/home/p/illustrations/456 b ob /7 - 11_p0.png'')
   \<and> ''456'' \<notin>
        (\<lambda>d. takeWhile (\<lambda>c. \<not> py_isspace c) (dropWhile py_isspace (basename d))) `
          {d \<in> path_join ''/home/p/illustrations'' ` set [''123 alice'', ''notes.txt''].
             [''/home/p/illustrations/123 alice'' \<mapsto> Dir,
              ''/home/p/illustrations/notes.txt'' \<mapsto> File []] d = Some Dir}
   \<and> ''/home/p/illustrations/456 b ob /7 - 11_p0.png''
       = path_join (path_join ''/home/p/illustrations''
            (map (\<lambda>c. if c \<in> {CHR ''<'', CHR ''>'', CHR '':'', CHR 0x22, CHR ''/'',
                                 CHR 0x5C, CHR ''|'', CHR ''?'', CHR ''*''}
                       then CHR '' '' else c) ''456 b:ob?''))
           ''7 - 11_p0.png''"
proof -
  have run: "get_filepath ''/home/p/illustrations'' [''123 alice'', ''notes.txt'']
     [''/home/p/illustrations/123 alice'' \<mapsto> Dir,
      ''/home/p/illustrations/notes.txt'' \<mapsto> File []]
     ''http://i.pximg.net/img/11_p0.png''
     \<lparr>user_id = ''456'', user_name = ''b:ob?'', rank = ''7'', image_urls = []\<rparr>
     ''/home/p/illustrations'' True True
   = Inr (''7 - 11_p0.png'', ''/home/p/illustrations/456 b ob /7 - 11_p0.png'')"
    by (simp add: get_filepath_def get_dir_name_def path_join_def isdir_def basename_def
          first_def py_isspace_def re_sub_illegal_def illegal_chars_def Let_def)
  have nomatch: "''456'' \<notin>
        (\<lambda>d. takeWhile (\<lambda>c. \<not> py_isspace c) (dropWhile py_isspace (basename d))) `
          {d \<in> path_join ''/home/p/illustrations'' ` set [''123 alice'', ''notes.txt''].
             [''/home/p/illustrations/123 alice'' \<mapsto> Dir,
              ''/home/p/illustrations/notes.txt'' \<mapsto> File []] d = Some Dir}"
    by (auto simp: path_join_def basename_def py_isspace_def)
  from get_filepath_construction [OF run] nomatch run show ?thesis
    by simp
qed

subsection \<open>The planner\<close>

lemma check_urls_effect:
  assumes G: "\<And>u ill x. gf u (ill\<lparr>image_urls := x\<rparr>) = gf u ill"
    and "check_urls gf ex i us pl = Inr pl'"
    and "image_urls (objects pl i) = K @ us"
    and "\<forall>k \<in> set K. \<not> exists_for gf ex (objects pl i) k"
  shows "image_urls (objects pl' i) = K @ filter (\<lambda>u. \<not> exists_for gf ex (objects pl i) u) us
    \<and> (\<exists>new. planned pl' = planned pl @ new
          \<and> map url new = filter (\<lambda>u. \<not> exists_for gf ex (objects pl i) u) us
          \<and> (\<forall>t \<in> set new. \<not> ex (path t)))
    \<and> count pl' = count pl + length (filter (\<lambda>u. \<not> exists_for gf ex (objects pl i) u) us)
    \<and> illustrations pl' = illustrations pl
    \<and> (\<forall>j. j \<noteq> i \<longrightarrow> objects pl' j = objects pl j)
    \<and> objects pl' i = (objects pl i)\<lparr>image_urls := image_urls (objects pl' i)\<rparr>"
  using assms(2-)
proof (induction us arbitrary: pl K)
  case Nil
  then show ?case by simp
next
  case (Cons u us)
  let ?ill = "objects pl i"
  from Cons.prems(1) obtain f p where gf: "gf u ?ill = Inr (f, p)"
    by (cases "gf u ?ill") auto
  show ?case
  proof (cases "ex p")
    case True
    let ?pl1 = "pl\<lparr>objects := (objects pl)
                  (i := ?ill\<lparr>image_urls := remove1 u (image_urls ?ill)\<rparr>)\<rparr>"
    have uin: "u \<in> set (image_urls ?ill)" using Cons.prems(2) by simp
    have run: "check_urls gf ex i us ?pl1 = Inr pl'"
      using Cons.prems(1) gf True uin by simp
    have deu: "exists_for gf ex ?ill u" using gf True by (simp add: exists_for_def)
    with Cons.prems(3) have "u \<notin> set K" by auto
    then have live: "image_urls (objects ?pl1 i) = K @ us"
      using Cons.prems(2) by (simp add: remove1_append)
    have same: "exists_for gf ex (objects ?pl1 i) = exists_for gf ex ?ill"
      by (rule ext) (simp add: exists_for_def G)
    have K: "\<forall>k \<in> set K. \<not> exists_for gf ex (objects ?pl1 i) k"
      using Cons.prems(3) same by simp
    from Cons.IH [OF run live K] same deu show ?thesis
      by (auto simp: fun_upd_def)
  next
    case False
    let ?t = "\<lparr>url = u, file' = f, path = p\<rparr>"
    let ?pl1 = "pl\<lparr>planned := planned pl @ [?t], count := count pl + 1\<rparr>"
    have run: "check_urls gf ex i us ?pl1 = Inr pl'"
      using Cons.prems(1) gf False by simp
    have deu: "\<not> exists_for gf ex ?ill u" using gf False by (simp add: exists_for_def)
    have live: "image_urls (objects ?pl1 i) = (K @ [u]) @ us"
      using Cons.prems(2) by simp
    have K: "\<forall>k \<in> set (K @ [u]). \<not> exists_for gf ex (objects ?pl1 i) k"
      using Cons.prems(3) deu by simp
    from Cons.IH [OF run live K]
    obtain new where
      a: "image_urls (objects pl' i) = (K @ [u]) @ filter (\<lambda>u. \<not> exists_for gf ex ?ill u) us"
      and b: "planned pl' = (planned pl @ [?t]) @ new"
         "map url new = filter (\<lambda>u. \<not> exists_for gf ex ?ill u) us"
         "\<forall>t \<in> set new. \<not> ex (path t)"
      and c: "count pl' = count pl + 1 + length (filter (\<lambda>u. \<not> exists_for gf ex ?ill u) us)"
         "illustrations pl' = illustrations pl"
         "\<forall>j. j \<noteq> i \<longrightarrow> objects pl' j = objects pl j"
         "objects pl' i = ?ill\<lparr>image_urls := image_urls (objects pl' i)\<rparr>"
      by auto
    have "planned pl' = planned pl @ (?t # new)
          \<and> map url (?t # new) = filter (\<lambda>u. \<not> exists_for gf ex ?ill u) (u # us)
          \<and> (\<forall>t \<in> set (?t # new). \<not> ex (path t))"
      using b deu False by simp
    then have "\<exists>new. planned pl' = planned pl @ new
          \<and> map url new = filter (\<lambda>u. \<not> exists_for gf ex ?ill u) (u # us)
          \<and> (\<forall>t \<in> set new. \<not> ex (path t))" by blast
    with a c deu show ?thesis by simp
  qed
qed

lemma check_illustrations_effect:
  assumes G: "\<And>u ill x. gf u (ill\<lparr>image_urls := x\<rparr>) = gf u ill"
    and "check_illustrations gf ex todo pl = Inr pl'"
    and "illustrations pl = K @ todo"
    and "distinct (K @ todo)"
  shows "illustrations pl' = K @ filter (\<lambda>i. image_urls (objects pl i) \<noteq> []) todo
    \<and> (\<forall>i \<in> set todo. image_urls (objects pl' i)
          = filter (\<lambda>u. \<not> exists_for gf ex (objects pl i) u) (image_urls (objects pl i)))
    \<and> (\<forall>j. j \<notin> set todo \<longrightarrow> objects pl' j = objects pl j)
    \<and> (\<exists>new. planned pl' = planned pl @ new
          \<and> map url new = concat (map (\<lambda>i. filter (\<lambda>u. \<not> exists_for gf ex (objects pl i) u)
                                               (image_urls (objects pl i))) todo)
          \<and> (\<forall>t \<in> set new. \<not> ex (path t)))
    \<and> count pl' = count pl
          + length (concat (map (\<lambda>i. filter (\<lambda>u. \<not> exists_for gf ex (objects pl i) u)
                                        (image_urls (objects pl i))) todo))"
  using assms(2-)
proof (induction todo arbitrary: pl K)
  case Nil
  then show ?case by simp
next
  case (Cons i rest)
  let ?F = "\<lambda>ob. filter (\<lambda>u. \<not> exists_for gf ex ob u) (image_urls ob)"
  have iK: "i \<notin> set K" and irest: "i \<notin> set rest" using Cons.prems(3) by auto
  show ?case
  proof (cases "image_urls (objects pl i) = []")
    case True
    let ?pl1 = "pl\<lparr>illustrations := remove1 i (illustrations pl)\<rparr>"
    have run: "check_illustrations gf ex rest ?pl1 = Inr pl'"
      using Cons.prems(1,2) True by simp
    have live: "illustrations ?pl1 = K @ rest"
      using Cons.prems(2) iK by (simp add: remove1_append)
    have d: "distinct (K @ rest)" using Cons.prems(3) by simp
    from Cons.IH [OF run live d] True irest show ?thesis by simp
  next
    case False
    then obtain pl1 where cu: "check_urls gf ex i (image_urls (objects pl i)) pl = Inr pl1"
      and run: "check_illustrations gf ex rest pl1 = Inr pl'"
      using Cons.prems(1) by (auto split: sum.splits)
    have l0: "image_urls (objects pl i) = [] @ image_urls (objects pl i)" by simp
    have k0: "\<forall>k \<in> set []. \<not> exists_for gf ex (objects pl i) k" by simp
    from check_urls_effect [of gf ex i "image_urls (objects pl i)" pl pl1 "[]", OF G cu l0 k0]
    obtain new1 where
      a1: "image_urls (objects pl1 i) = ?F (objects pl i)"
      and b1: "planned pl1 = planned pl @ new1" "map url new1 = ?F (objects pl i)"
          "\<forall>t \<in> set new1. \<not> ex (path t)"
      and c1: "count pl1 = count pl + length (?F (objects pl i))"
          "illustrations pl1 = illustrations pl"
          "\<forall>j. j \<noteq> i \<longrightarrow> objects pl1 j = objects pl j"
      by auto
    have live: "illustrations pl1 = (K @ [i]) @ rest" using c1(2) Cons.prems(2) by simp
    have d: "distinct ((K @ [i]) @ rest)" using Cons.prems(3) by simp
    have same: "\<And>j. j \<in> set rest \<Longrightarrow> objects pl1 j = objects pl j"
      using c1(3) irest by auto
    have m: "map (\<lambda>j. ?F (objects pl1 j)) rest = map (\<lambda>j. ?F (objects pl j)) rest"
      using same by (auto intro: map_cong)
    have f: "filter (\<lambda>j. image_urls (objects pl1 j) \<noteq> []) rest
           = filter (\<lambda>j. image_urls (objects pl j) \<noteq> []) rest"
      using same by (auto intro: filter_cong)
    from Cons.IH [OF run live d]
    obtain new2 where
      a2: "illustrations pl' = (K @ [i]) @ filter (\<lambda>j. image_urls (objects pl1 j) \<noteq> []) rest"
        "\<forall>j \<in> set rest. image_urls (objects pl' j) = ?F (objects pl1 j)"
        "\<forall>j. j \<notin> set rest \<longrightarrow> objects pl' j = objects pl1 j"
      and b2: "planned pl' = planned pl1 @ new2"
        "map url new2 = concat (map (\<lambda>j. ?F (objects pl1 j)) rest)"
        "\<forall>t \<in> set new2. \<not> ex (path t)"
      and c2: "count pl' = count pl1 + length (concat (map (\<lambda>j. ?F (objects pl1 j)) rest))"
      by auto
    have g1: "illustrations pl' = K @ filter (\<lambda>i. image_urls (objects pl i) \<noteq> []) (i # rest)"
      using a2(1) f False by simp
    have g2: "\<forall>j \<in> set (i # rest). image_urls (objects pl' j) = ?F (objects pl j)"
      using a2(2,3) a1 same irest by auto
    have g3: "\<forall>j. j \<notin> set (i # rest) \<longrightarrow> objects pl' j = objects pl j"
      using a2(3) c1(3) by auto
    have "planned pl' = planned pl @ (new1 @ new2)
          \<and> map url (new1 @ new2) = concat (map (\<lambda>j. ?F (objects pl j)) (i # rest))
          \<and> (\<forall>t \<in> set (new1 @ new2). \<not> ex (path t))"
      using b1 b2 m by auto
    then have g4: "\<exists>new. planned pl' = planned pl @ new
          \<and> map url new = concat (map (\<lambda>j. ?F (objects pl j)) (i # rest))
          \<and> (\<forall>t \<in> set new. \<not> ex (path t))" by blast
    have g5: "count pl' = count pl + length (concat (map (\<lambda>j. ?F (objects pl j)) (i # rest)))"
      using c1(1) c2 m by simp
    from g1 g2 g3 g4 g5 show ?thesis by blast
  qed
qed

lemma check_urls_returns:
  assumes G: "\<And>u ill x. gf u (ill\<lparr>image_urls := x\<rparr>) = gf u ill"
    and "\<forall>u \<in> set us. \<exists>r. gf u (objects pl i) = Inr r"
    and "image_urls (objects pl i) = K @ us"
    and "\<forall>k \<in> set K. \<not> exists_for gf ex (objects pl i) k"
  shows "\<exists>pl'. check_urls gf ex i us pl = Inr pl'"
  using assms(2-)
proof (induction us arbitrary: pl K)
  case Nil
  show ?case by simp
next
  case (Cons u us)
  let ?ill = "objects pl i"
  from Cons.prems(1) obtain f p where gf: "gf u ?ill = Inr (f, p)" by auto
  show ?case
  proof (cases "ex p")
    case True
    let ?pl1 = "pl\<lparr>objects := (objects pl)
                  (i := ?ill\<lparr>image_urls := remove1 u (image_urls ?ill)\<rparr>)\<rparr>"
    have uin: "u \<in> set (image_urls ?ill)" using Cons.prems(2) by simp
    have deu: "exists_for gf ex ?ill u" using gf True by (simp add: exists_for_def)
    with Cons.prems(3) have "u \<notin> set K" by auto
    then have live: "image_urls (objects ?pl1 i) = K @ us"
      using Cons.prems(2) by (simp add: remove1_append)
    have same: "exists_for gf ex (objects ?pl1 i) = exists_for gf ex ?ill"
      by (rule ext) (simp add: exists_for_def G)
    have K: "\<forall>k \<in> set K. \<not> exists_for gf ex (objects ?pl1 i) k"
      using Cons.prems(3) same by simp
    have r: "\<forall>u \<in> set us. \<exists>r. gf u (objects ?pl1 i) = Inr r"
      using Cons.prems(1) by (simp add: G)
    from Cons.IH [OF r live K] gf True uin show ?thesis by simp
  next
    case False
    let ?pl1 = "pl\<lparr>planned := planned pl @ [\<lparr>url = u, file' = f, path = p\<rparr>],
                  count := count pl + 1\<rparr>"
    have deu: "\<not> exists_for gf ex ?ill u" using gf False by (simp add: exists_for_def)
    have live: "image_urls (objects ?pl1 i) = (K @ [u]) @ us"
      using Cons.prems(2) by simp
    have K: "\<forall>k \<in> set (K @ [u]). \<not> exists_for gf ex (objects ?pl1 i) k"
      using Cons.prems(3) deu by simp
    have r: "\<forall>u \<in> set us. \<exists>r. gf u (objects ?pl1 i) = Inr r"
      using Cons.prems(1) by simp
    from Cons.IH [OF r live K] gf False show ?thesis by simp
  qed
qed

lemma check_illustrations_returns:
  assumes G: "\<And>u ill x. gf u (ill\<lparr>image_urls := x\<rparr>) = gf u ill"
    and "\<forall>i \<in> set todo. \<forall>u \<in> set (image_urls (objects pl i)). \<exists>r. gf u (objects pl i) = Inr r"
    and "illustrations pl = K @ todo"
    and "distinct (K @ todo)"
  shows "\<exists>pl'. check_illustrations gf ex todo pl = Inr pl'"
  using assms(2-)
proof (induction todo arbitrary: pl K)
  case Nil
  show ?case by simp
next
  case (Cons i rest)
  have iK: "i \<notin> set K" and irest: "i \<notin> set rest" using Cons.prems(3) by auto
  show ?case
  proof (cases "image_urls (objects pl i) = []")
    case True
    let ?pl1 = "pl\<lparr>illustrations := remove1 i (illustrations pl)\<rparr>"
    have live: "illustrations ?pl1 = K @ rest"
      using Cons.prems(2) iK by (simp add: remove1_append)
    have d: "distinct (K @ rest)" using Cons.prems(3) by simp
    have r: "\<forall>i \<in> set rest. \<forall>u \<in> set (image_urls (objects ?pl1 i)).
               \<exists>r. gf u (objects ?pl1 i) = Inr r"
      using Cons.prems(1) by simp
    from Cons.IH [OF r live d] True Cons.prems(2) show ?thesis by simp
  next
    case False
    have l0: "image_urls (objects pl i) = [] @ image_urls (objects pl i)" by simp
    have k0: "\<forall>k \<in> set []. \<not> exists_for gf ex (objects pl i) k" by simp
    have r0: "\<forall>u \<in> set (image_urls (objects pl i)). \<exists>r. gf u (objects pl i) = Inr r"
      using Cons.prems(1) by simp
    from check_urls_returns [of gf "image_urls (objects pl i)" pl i "[]" ex, OF G r0 l0 k0]
    obtain pl1 where cu: "check_urls gf ex i (image_urls (objects pl i)) pl = Inr pl1" by blast
    from check_urls_effect [of gf ex i "image_urls (objects pl i)" pl pl1 "[]", OF G cu l0 k0]
    have c1: "illustrations pl1 = illustrations pl"
          "\<forall>j. j \<noteq> i \<longrightarrow> objects pl1 j = objects pl j"
      by auto
    have live: "illustrations pl1 = (K @ [i]) @ rest" using c1(1) Cons.prems(2) by simp
    have d: "distinct ((K @ [i]) @ rest)" using Cons.prems(3) by simp
    have r: "\<forall>i \<in> set rest. \<forall>u \<in> set (image_urls (objects pl1 i)).
               \<exists>r. gf u (objects pl1 i) = Inr r"
      using Cons.prems(1) c1(2) irest by auto
    from Cons.IH [OF r live d] cu False show ?thesis by simp
  qed
qed

lemma get_filepath_image_urls:
  "get_filepath current_path names disk u (ill\<lparr>image_urls := x\<rparr>) save_path add_user_folder add_rank
   = get_filepath current_path names disk u ill save_path add_user_folder add_rank"
proof -
  have "get_dir_name current_path names disk (ill\<lparr>image_urls := x\<rparr>)
      = get_dir_name current_path names disk ill"
    by (auto simp: get_dir_name_def Let_def split: sum.splits)
  then show ?thesis
    by (auto simp: get_filepath_def Let_def split: sum.splits)
qed

text \<open>
  C3. Let the illustrations of the list be distinct objects and let the destination of
  each of their URLs be computable. Then \<^verbatim>\<open>check_files\<close> returns, and: the illustrations
  whose URL list was empty on entry are gone from the list and the others stay, in
  order; every illustration of the list keeps exactly the URLs whose destination does
  not exist; the queue holds exactly those URLs, in order, none of them with an existing
  destination; the count is the length of the queue. So when every destination exists,
  the count is 0 and nothing is queued.
\<close>

theorem check_files_plan:
  assumes "distinct ills"
    and "\<forall>i \<in> set ills. \<forall>u \<in> set (image_urls (objs i)).
           \<exists>r. get_filepath current_path names disk u (objs i) save_path add_user_folder add_rank = Inr r"
  shows "\<exists>pl. check_files current_path names disk ills objs save_path add_user_folder add_rank = Inr pl
    \<and> illustrations pl = filter (\<lambda>i. image_urls (objs i) \<noteq> []) ills
    \<and> (\<forall>i \<in> set ills. image_urls (objects pl i)
          = filter (\<lambda>u. \<not> dest_exists current_path names disk save_path add_user_folder add_rank
                            (objs i) u) (image_urls (objs i)))
    \<and> map url (planned pl)
        = concat (map (\<lambda>i. filter (\<lambda>u. \<not> dest_exists current_path names disk save_path
                                            add_user_folder add_rank (objs i) u)
                                (image_urls (objs i))) ills)
    \<and> (\<forall>t \<in> set (planned pl). \<not> path_exists disk (path t))
    \<and> count pl = length (planned pl)
    \<and> ((\<forall>i \<in> set ills. \<forall>u \<in> set (image_urls (objs i)).
           dest_exists current_path names disk save_path add_user_folder add_rank (objs i) u)
         \<longrightarrow> count pl = 0 \<and> planned pl = [])"
proof (cases "ills = []")
  case True
  then show ?thesis by (simp add: check_files_def)
next
  case False
  let ?gf = "\<lambda>u illustration.
      get_filepath current_path names disk u illustration save_path add_user_folder add_rank"
  let ?ex = "path_exists disk"
  let ?pl0 = "\<lparr>illustrations = ills, objects = objs, planned = [], count = 0\<rparr>"
  let ?D = "dest_exists current_path names disk save_path add_user_folder add_rank"
  have G: "\<And>u ill x. ?gf u (ill\<lparr>image_urls := x\<rparr>) = ?gf u ill"
    by (rule get_filepath_image_urls)
  have exists_for: "exists_for ?gf ?ex = ?D"
    by (intro ext) (simp add: exists_for_def dest_exists_def)
  have live: "illustrations ?pl0 = [] @ ills" by simp
  have d: "distinct ([] @ ills)" using assms(1) by simp
  have r: "\<forall>i \<in> set ills. \<forall>u \<in> set (image_urls (objects ?pl0 i)). \<exists>r. ?gf u (objects ?pl0 i) = Inr r"
    using assms(2) by simp
  from check_illustrations_returns [of ?gf ills ?pl0 "[]" ?ex, OF G r live d]
  obtain pl where run: "check_illustrations ?gf ?ex ills ?pl0 = Inr pl" by blast
  then have cf: "check_files current_path names disk ills objs save_path add_user_folder add_rank = Inr pl"
    using False by (simp add: check_files_def)
  from check_illustrations_effect [of ?gf ?ex ills ?pl0 pl "[]", OF G run live d]
  obtain new where
    a: "illustrations pl = filter (\<lambda>i. image_urls (objs i) \<noteq> []) ills"
      "\<forall>i \<in> set ills. image_urls (objects pl i) = filter (\<lambda>u. \<not> ?D (objs i) u) (image_urls (objs i))"
    and b: "planned pl = new"
      "map url new = concat (map (\<lambda>i. filter (\<lambda>u. \<not> ?D (objs i) u) (image_urls (objs i))) ills)"
      "\<forall>t \<in> set new. \<not> path_exists disk (path t)"
    and c: "count pl = length (concat (map (\<lambda>i. filter (\<lambda>u. \<not> ?D (objs i) u) (image_urls (objs i))) ills))"
    unfolding exists_for by auto
  have len: "count pl = length (planned pl)"
    using b(1,2) c by (metis length_map)
  have zero: "count pl = 0 \<and> planned pl = []"
    if all: "\<forall>i \<in> set ills. \<forall>u \<in> set (image_urls (objs i)). ?D (objs i) u"
  proof -
    have "concat (map (\<lambda>i. filter (\<lambda>u. \<not> ?D (objs i) u) (image_urls (objs i))) ills) = []"
      using all by (auto simp: filter_empty_conv)
    with b(1,2) c show ?thesis by simp
  qed
  from cf a b len zero show ?thesis by blast
qed

theorem check_files_plan_witness:
  "(\<exists>pl. check_files ''/i'' [] [''/i/11_p0.png'' \<mapsto> File [7], ''/i/13_p0.png'' \<mapsto> File [8]] [0, 1, 2]
           (\<lambda>i::nat. if i = 0 then \<lparr>user_id = ''456'', user_name = ''bob'', rank = ''1'',
                            image_urls = [''http://i.pximg.net/img/11_p0.png'',
                                          ''http://i.pximg.net/img/11_p1.png'']\<rparr>
            else if i = 1 then \<lparr>user_id = ''456'', user_name = ''bob'', rank = ''2'',
                            image_urls = []\<rparr>
            else \<lparr>user_id = ''456'', user_name = ''bob'', rank = ''3'',
                            image_urls = [''http://i.pximg.net/img/13_p0.png'']\<rparr>) ''/i'' False False = Inr pl
      \<and> illustrations pl = [0, 2]
      \<and> image_urls (objects pl 0) = [''http://i.pximg.net/img/11_p1.png'']
      \<and> image_urls (objects pl 2) = []
      \<and> map url (planned pl) = [''http://i.pximg.net/img/11_p1.png'']
      \<and> count pl = 1)
   \<and> (\<exists>pl. check_files ''/i'' [] [''/i/11_p0.png'' \<mapsto> File [7], ''/i/11_p1.png'' \<mapsto> File [9],
         ''/i/13_p0.png'' \<mapsto> File [8]] [0, 1, 2]
           (\<lambda>i::nat. if i = 0 then \<lparr>user_id = ''456'', user_name = ''bob'', rank = ''1'',
                            image_urls = [''http://i.pximg.net/img/11_p0.png'',
                                          ''http://i.pximg.net/img/11_p1.png'']\<rparr>
            else if i = 1 then \<lparr>user_id = ''456'', user_name = ''bob'', rank = ''2'',
                            image_urls = []\<rparr>
            else \<lparr>user_id = ''456'', user_name = ''bob'', rank = ''3'',
                            image_urls = [''http://i.pximg.net/img/13_p0.png'']\<rparr>) ''/i'' False False = Inr pl
      \<and> count pl = 0 \<and> planned pl = [])"
proof -
  let ?objs = "(\<lambda>i::nat. if i = 0 then \<lparr>user_id = ''456'', user_name = ''bob'', rank = ''1'',
                            image_urls = [''http://i.pximg.net/img/11_p0.png'',
                                          ''http://i.pximg.net/img/11_p1.png'']\<rparr>
            else if i = 1 then \<lparr>user_id = ''456'', user_name = ''bob'', rank = ''2'',
                            image_urls = []\<rparr>
            else \<lparr>user_id = ''456'', user_name = ''bob'', rank = ''3'',
                            image_urls = [''http://i.pximg.net/img/13_p0.png'']\<rparr>)"
  let ?d1 = "[''/i/11_p0.png'' \<mapsto> File [7], ''/i/13_p0.png'' \<mapsto> File [8]]"
  let ?d2 = "[''/i/11_p0.png'' \<mapsto> File [7], ''/i/11_p1.png'' \<mapsto> File [9],
         ''/i/13_p0.png'' \<mapsto> File [8]]"
  have d: "distinct [0, 1, 2 :: nat]" by simp
  have r1: "\<forall>i \<in> set [0, 1, 2 :: nat]. \<forall>u \<in> set (image_urls (?objs i)).
           \<exists>r. get_filepath ''/i'' [] ?d1 u (?objs i) ''/i'' False False = Inr r"
    by (simp add: get_filepath_def Let_def)
  have r2: "\<forall>i \<in> set [0, 1, 2 :: nat]. \<forall>u \<in> set (image_urls (?objs i)).
           \<exists>r. get_filepath ''/i'' [] ?d2 u (?objs i) ''/i'' False False = Inr r"
    by (simp add: get_filepath_def Let_def)
  have all2: "\<forall>i \<in> set [0, 1, 2 :: nat]. \<forall>u \<in> set (image_urls (?objs i)).
           dest_exists ''/i'' [] ?d2 ''/i'' False False (?objs i) u"
    by (simp add: dest_exists_def get_filepath_def path_join_def path_exists_def Let_def)
  from check_files_plan [OF d r1] obtain pl where
    "check_files ''/i'' [] ?d1 [0, 1, 2] ?objs ''/i'' False False = Inr pl"
    "illustrations pl = filter (\<lambda>i. image_urls (?objs i) \<noteq> []) [0, 1, 2]"
    "\<forall>i \<in> set [0, 1, 2 :: nat]. image_urls (objects pl i)
          = filter (\<lambda>u. \<not> dest_exists ''/i'' [] ?d1 ''/i'' False False (?objs i) u)
              (image_urls (?objs i))"
    "map url (planned pl)
        = concat (map (\<lambda>i. filter (\<lambda>u. \<not> dest_exists ''/i'' [] ?d1 ''/i'' False False (?objs i) u)
                                (image_urls (?objs i))) [0, 1, 2])"
    "count pl = length (planned pl)"
    by blast
  then have one: "\<exists>pl. check_files ''/i'' [] ?d1 [0, 1, 2] ?objs ''/i'' False False = Inr pl
      \<and> illustrations pl = [0, 2]
      \<and> image_urls (objects pl 0) = [''http://i.pximg.net/img/11_p1.png'']
      \<and> image_urls (objects pl 2) = []
      \<and> map url (planned pl) = [''http://i.pximg.net/img/11_p1.png'']
      \<and> count pl = 1"
    by (intro exI [of _ pl])
       (simp add: dest_exists_def get_filepath_def path_join_def path_exists_def Let_def
          flip: length_map [of url "planned pl"])
  from check_files_plan [OF d r2] all2 have two:
    "\<exists>pl. check_files ''/i'' [] ?d2 [0, 1, 2] ?objs ''/i'' False False = Inr pl
      \<and> count pl = 0 \<and> planned pl = []"
    by blast
  from one two show ?thesis by blast
qed

subsection \<open>The download executor\<close>

lemma download_file_fs_on_error:
  "download_file rep u p s = (Inl e, s') \<Longrightarrow> fs s' = fs s"
  by (auto simp: download_file_def Let_def
           split: reply.splits if_splits option.splits list.splits prod.splits)

text \<open>
  C4, as the program has it. Given a response, \<^verbatim>\<open>download_file\<close> raises its ConnectionError
  exactly when the status differs from \<^verbatim>\<open>requests.codes.ok\<close>, that is from 200; the error
  carries the status, and the call leaves the state as it was but for the request it
  sent: no file is written.
\<close>

theorem download_file_transfer_error:
  "((\<exists>n. fst (download_file (Reply r) u p s) = Inl (ConnectionError n))
      \<longleftrightarrow> status_code r \<noteq> requests_codes_ok)
   \<and> (status_code r \<noteq> requests_codes_ok \<longrightarrow>
        download_file (Reply r) u p s
          = (Inl (ConnectionError (status_code r)), s\<lparr>trace := trace s @ [Request u]\<rparr>))"
  by (auto simp: download_file_def Let_def split: option.splits list.splits prod.splits)

theorem download_file_transfer_error_witness:
  "status_code \<lparr>status_code = 404, content_length = None, chunks = [], broken = False\<rparr>
     \<noteq> requests_codes_ok
   \<and> download_file
        (Reply \<lparr>status_code = 404, content_length = None, chunks = [], broken = False\<rparr>)
        ''http://i.pximg.net/img/11_p0.png'' ''/i/11_p0.png''
        \<lparr>fs = Map.empty, Global_Download = 0, finished_download = 0, queue_size = 1,
          error_count = Map.empty, download_queue = [], unfinished_tasks = 1, trace = []\<rparr>
     = (Inl (ConnectionError 404),
        \<lparr>fs = Map.empty, Global_Download = 0, finished_download = 0, queue_size = 1,
          error_count = Map.empty, download_queue = [], unfinished_tasks = 1,
          trace = [Request ''http://i.pximg.net/img/11_p0.png'']\<rparr>)"
  using download_file_transfer_error
    [of "\<lparr>status_code = 404, content_length = None, chunks = [], broken = False\<rparr>"
        "''http://i.pximg.net/img/11_p0.png''" "''/i/11_p0.png''"
        "\<lparr>fs = Map.empty, Global_Download = 0, finished_download = 0, queue_size = 1,
          error_count = Map.empty, download_queue = [], unfinished_tasks = 1, trace = []\<rparr>"]
  by (simp add: requests_codes_ok_def)

text \<open>
  The status 201 is a 2xx status, and the call raises the ConnectionError all the same,
  writing no file: success is the status 200 alone.
\<close>

theorem download_file_2xx_counterexample:
  "(200 \<le> (201::nat) \<and> (201::nat) < 300)
   \<and> fst (download_file
        (Reply \<lparr>status_code = 201, content_length = Some ''3'', chunks = [[1, 2, 3]],
                broken = False\<rparr>)
        ''http://i.pximg.net/img/11_p0.png'' ''/i/11_p0.png''
        \<lparr>fs = Map.empty, Global_Download = 0, finished_download = 0, queue_size = 1,
          error_count = Map.empty, download_queue = [], unfinished_tasks = 1, trace = []\<rparr>)
     = Inl (ConnectionError 201)
   \<and> fs (snd (download_file
        (Reply \<lparr>status_code = 201, content_length = Some ''3'', chunks = [[1, 2, 3]],
                broken = False\<rparr>)
        ''http://i.pximg.net/img/11_p0.png'' ''/i/11_p0.png''
        \<lparr>fs = Map.empty, Global_Download = 0, finished_download = 0, queue_size = 1,
          error_count = Map.empty, download_queue = [], unfinished_tasks = 1, trace = []\<rparr>))
       ''/i/11_p0.png'' = None"
  by (simp add: download_file_def requests_codes_ok_def)

text \<open>
  C5, as the program has it. A response with the status 200, the one status the program
  takes for a success, and no content-length header makes the call a no-op: it returns
  without an error, and the state is as before but for the request it sent; no file is
  written and no byte is counted.
\<close>

theorem download_file_no_content_length:
  "status_code r = requests_codes_ok \<Longrightarrow> content_length r = None \<Longrightarrow>
   download_file (Reply r) u p s = (Inr (), s\<lparr>trace := trace s @ [Request u]\<rparr>)"
  by (simp add: download_file_def)

theorem download_file_no_content_length_witness:
  "download_file
     (Reply \<lparr>status_code = 200, content_length = None, chunks = [[1, 2, 3]], broken = False\<rparr>)
     ''http://i.pximg.net/img/11_p0.png'' ''/i/11_p0.png''
     \<lparr>fs = Map.empty, Global_Download = 0, finished_download = 0, queue_size = 1,
       error_count = Map.empty, download_queue = [], unfinished_tasks = 1, trace = []\<rparr>
   = (Inr (),
      \<lparr>fs = Map.empty, Global_Download = 0, finished_download = 0, queue_size = 1,
       error_count = Map.empty, download_queue = [], unfinished_tasks = 1,
       trace = [Request ''http://i.pximg.net/img/11_p0.png'']\<rparr>)"
  using download_file_no_content_length
    [of "\<lparr>status_code = 200, content_length = None, chunks = [[1, 2, 3]], broken = False\<rparr>"
        "''http://i.pximg.net/img/11_p0.png''" "''/i/11_p0.png''"
        "\<lparr>fs = Map.empty, Global_Download = 0, finished_download = 0, queue_size = 1,
          error_count = Map.empty, download_queue = [], unfinished_tasks = 1, trace = []\<rparr>"]
  by (simp add: requests_codes_ok_def)

text \<open>
  The status 204 is a 2xx status. A response with it and without a content-length header
  is no no-op: the call raises the ConnectionError.
\<close>

theorem download_file_204_counterexample:
  "(200 \<le> (204::nat) \<and> (204::nat) < 300)
   \<and> content_length \<lparr>status_code = 204, content_length = None, chunks = [], broken = False\<rparr>
       = None
   \<and> fst (download_file
        (Reply \<lparr>status_code = 204, content_length = None, chunks = [], broken = False\<rparr>)
        ''http://i.pximg.net/img/11_p0.png'' ''/i/11_p0.png''
        \<lparr>fs = Map.empty, Global_Download = 0, finished_download = 0, queue_size = 1,
          error_count = Map.empty, download_queue = [], unfinished_tasks = 1, trace = []\<rparr>)
     = Inl (ConnectionError 204)"
  by (simp add: download_file_def requests_codes_ok_def)

text \<open>
  C10. A call of \<^verbatim>\<open>download_file\<close> that raises, be it for the status, for a connection that
  fails before the response or while the body is received, or for a path that cannot be
  opened, leaves the file system as it was: the body is kept in memory and the file is
  written only after the last chunk.
\<close>

theorem download_file_atomic:
  "fst (download_file rep u p s) = Inl e \<Longrightarrow> fs (snd (download_file rep u p s)) = fs s"
  using download_file_fs_on_error [of rep u p s e "snd (download_file rep u p s)"]
  by (cases "download_file rep u p s") simp

theorem download_file_atomic_witness:
  "fst (download_file
     (Reply \<lparr>status_code = 200, content_length = Some ''6'', chunks = [[1, 2, 3]], broken = True\<rparr>)
     ''http://i.pximg.net/img/11_p0.png'' ''/i/11_p0.png''
     \<lparr>fs = [''/i/11_p0.png'' \<mapsto> File [9]], Global_Download = 0, finished_download = 0,
       queue_size = 1, error_count = Map.empty, download_queue = [], unfinished_tasks = 1,
       trace = []\<rparr>) = Inl RequestException
   \<and> fs (snd (download_file
     (Reply \<lparr>status_code = 200, content_length = Some ''6'', chunks = [[1, 2, 3]], broken = True\<rparr>)
     ''http://i.pximg.net/img/11_p0.png'' ''/i/11_p0.png''
     \<lparr>fs = [''/i/11_p0.png'' \<mapsto> File [9]], Global_Download = 0, finished_download = 0,
       queue_size = 1, error_count = Map.empty, download_queue = [], unfinished_tasks = 1,
       trace = []\<rparr>)) = [''/i/11_p0.png'' \<mapsto> File [9]]"
proof -
  have e: "fst (download_file
     (Reply \<lparr>status_code = 200, content_length = Some ''6'', chunks = [[1, 2, 3]], broken = True\<rparr>)
     ''http://i.pximg.net/img/11_p0.png'' ''/i/11_p0.png''
     \<lparr>fs = [''/i/11_p0.png'' \<mapsto> File [9]], Global_Download = 0, finished_download = 0,
       queue_size = 1, error_count = Map.empty, download_queue = [], unfinished_tasks = 1,
       trace = []\<rparr>) = Inl RequestException"
    by (simp add: download_file_def requests_codes_ok_def)
  from download_file_atomic [OF e] e show ?thesis by simp
qed

subsection \<open>The worker\<close>

text \<open>
  C9. A turn on a task whose retry count is below the cap and whose destination already
  exists only takes the task off the queue and marks it done: no request is sent, no
  diagnostic is printed, the finished counter keeps its value and the task is not put
  back. Nothing that counts towards completion happens to it.
\<close>

theorem worker_turn_skip:
  "download_queue s = t # rest \<Longrightarrow>
   get_count (error_count s) (url t) < MAX_ERROR_COUNT \<Longrightarrow>
   path_exists (fs s) (path t) \<Longrightarrow>
   worker_turn rep s = s\<lparr>download_queue := rest, unfinished_tasks := unfinished_tasks s - 1\<rparr>"
  by (simp add: worker_turn_def task_done_def Let_def)

theorem worker_turn_skip_witness:
  "get_count (Map.empty :: string \<rightharpoonup> nat) ''http://i.pximg.net/img/11_p0.png'' < MAX_ERROR_COUNT
   \<and> path_exists [''/i/11_p0.png'' \<mapsto> File [7]] ''/i/11_p0.png''
   \<and> worker_turn NoReply
       \<lparr>fs = [''/i/11_p0.png'' \<mapsto> File [7]], Global_Download = 0, finished_download = 1,
         queue_size = 2, error_count = Map.empty,
         download_queue = [\<lparr>url = ''http://i.pximg.net/img/11_p0.png'', file' = ''11_p0.png'',
                             path = ''/i/11_p0.png''\<rparr>],
         unfinished_tasks = 1, trace = [Request ''http://i.pximg.net/img/11_p0.png'']\<rparr>
     = \<lparr>fs = [''/i/11_p0.png'' \<mapsto> File [7]], Global_Download = 0, finished_download = 1,
         queue_size = 2, error_count = Map.empty, download_queue = [],
         unfinished_tasks = 0, trace = [Request ''http://i.pximg.net/img/11_p0.png'']\<rparr>"
  using worker_turn_skip
    [of "\<lparr>fs = [''/i/11_p0.png'' \<mapsto> File [7]], Global_Download = 0, finished_download = 1,
         queue_size = 2, error_count = Map.empty,
         download_queue = [\<lparr>url = ''http://i.pximg.net/img/11_p0.png'', file' = ''11_p0.png'',
                             path = ''/i/11_p0.png''\<rparr>],
         unfinished_tasks = 1, trace = [Request ''http://i.pximg.net/img/11_p0.png'']\<rparr>"
        "\<lparr>url = ''http://i.pximg.net/img/11_p0.png'', file' = ''11_p0.png'',
                             path = ''/i/11_p0.png''\<rparr>" "[]" NoReply]
  by (simp add: get_count_def MAX_ERROR_COUNT_def path_exists_def)

lemma ensure_dir_i:
  "f ''/i'' = None \<Longrightarrow> ensure_dir ''/i'' f = (Inr (), f(''/i'' \<mapsto> Dir))"
  by (simp add: ensure_dir_def path_exists_def makedirs.simps [of "''/i''"]
        head_tail_def dirname_def basename_def rstrip_sep_def mkdir_def is_root_def Let_def)





lemma download_file_trace:
  "download_file rep u p s = (r, s') \<Longrightarrow> trace s' = trace s @ [Request u]"
  by (auto simp: download_file_def Let_def
           split: reply.splits if_splits option.splits list.splits prod.splits)

lemma download_file_fs_other:
  "download_file rep u p s = (r, s') \<Longrightarrow> q \<noteq> p \<Longrightarrow> fs s' q = fs s q"
  by (auto simp: download_file_def Let_def
           split: reply.splits if_splits option.splits list.splits prod.splits)

subsection \<open>The progress reporter\<close>

lemma floor_log_1024:
  assumes "1024 ^ k \<le> x" and "x < 1024 ^ Suc k"
  shows "\<lfloor>log 1024 (x::real)\<rfloor> = int k"
proof -
  have pos: "0 < x" using assms(1) by (smt (verit) zero_less_power)
  have "(1024::real) powr (of_int (int k)) = 1024 ^ k"
    by (simp add: powr_realpow)
  moreover have "(1024::real) powr (of_int (int k + 1)) = 1024 ^ Suc k"
    using powr_realpow [of "1024::real" "Suc k"] by (simp add: add.commute)
  ultimately show ?thesis
    using assms floor_log_eq_powr_iff [of x 1024 "int k"] pos by simp
qed

lemma digit_char:
  "digit 0 = CHR ''0''" "digit 1 = CHR ''1''" "digit 2 = CHR ''2''" "digit 3 = CHR ''3''"
  "digit 4 = CHR ''4''" "digit 5 = CHR ''5''" "digit 6 = CHR ''6''" "digit 7 = CHR ''7''"
  "digit 8 = CHR ''8''" "digit 9 = CHR ''9''" "digit (Suc 0) = CHR ''1''"
  by (code_simp+)

lemma replicate_small:
  "replicate 1 x = [x]" "replicate 2 x = [x, x]" "replicate 3 x = [x, x, x]"
  "replicate 4 x = [x, x, x, x]"
  by (simp_all add: numeral_2_eq_2 numeral_3_eq_3 eval_nat_numeral)

lemma units_nth: "k < 6 \<Longrightarrow> py_index units (int k) = Inr (units ! k)"
  by (simp add: py_index_def units_def)

text \<open>
  C8 fails on the program for a speed below one byte per second. One byte in a round of
  two seconds is half a byte per second; the division, the power and the quotient are
  exact in binary floating point as well. The floor of the logarithm is \<open>- 1\<close>, which is
  the index of no unit counted from B; Python reads the index from the end of the list,
  and half a byte per second is shown as 512 PB per second.
\<close>

theorem get_speed_half_byte_per_second:
  "\<lfloor>log 1024 (real (1::nat) / 2)\<rfloor> = - 1
   \<and> fst (get_speed 2
       \<lparr>fs = Map.empty, Global_Download = 1, finished_download = 0, queue_size = 1,
         error_count = Map.empty, download_queue = [], unfinished_tasks = 1, trace = []\<rparr>)
     = Inr ''512.00 PB/s''"
proof -
  have fl: "\<lfloor>log 1024 (1 / 2 :: real)\<rfloor> = - 1"
    using floor_log_eq_powr_iff [of "1 / 2 :: real" 1024 "- 1"]
    by (simp add: powr_minus)
  have f: "format_2f 6 512 = ''512.00''"
    by (simp add: format_2f_def round_half_even_def decimal.simps digit_char replicate_small Let_def)
  have p: "(1 / 2 :: real) / (1024 powi (- 1)) = 512"
    by (simp add: power_int_minus)
  show ?thesis
    using fl f p
    by (simp add: get_speed_def Let_def py_index_def units_def)
qed

subsection \<open>Completion\<close>

lemma worker_turn_finished:
  assumes "download_queue s \<noteq> []"
  shows "finished_download (worker_turn rep s) + length (download_queue (worker_turn rep s))
         \<le> finished_download s + length (download_queue s)
       \<and> finished_download s \<le> finished_download (worker_turn rep s)"
proof -
  from assms obtain t rest where q: "download_queue s = t # rest"
    by (cases "download_queue s") auto
  then show ?thesis
  proof (cases rule: worker_turn_cases [where rep = rep])
    case retire
    then show ?thesis using q by simp
  next
    case skip
    then show ?thesis using q by simp
  next
    case (dies e f)
    then show ?thesis using q by simp
  next
    case (ok x f s3)
    from download_file_frame(1,3) [OF ok(4)] ok(5) q show ?thesis by simp
  next
    case (fail e f s3)
    from download_file_frame(1,3) [OF fail(4)] fail(5) q show ?thesis by simp
  qed
qed

text \<open>
  The part of the completion invariant that holds: in every state a run passes through
  the finished counter has not gone down, and with the tasks still queued it is at most
  what it was with the tasks queued at the start, so it never exceeds the total.
\<close>

lemma finished_bounded:
  assumes "s \<in> reach s0"
  shows "finished_download s + length (download_queue s)
         \<le> finished_download s0 + length (download_queue s0)
       \<and> finished_download s0 \<le> finished_download s"
  using assms
proof (induction)
  case start
  show ?case by simp
next
  case (turn s rep)
  from worker_turn_finished [OF turn.hyps(2), of rep] turn.IH show ?case by simp
qed

lemma get_speed_returns:
  assumes "t0 \<noteq> 0"
    and "Global_Download s = 0
         \<or> (\<exists>k < 6. 1024 ^ k \<le> real (Global_Download s) / t0
                   \<and> real (Global_Download s) / t0 < 1024 ^ Suc k)"
  shows "\<exists>line. get_speed t0 s = (Inr line, s\<lparr>Global_Download := 0\<rparr>)"
proof (cases "Global_Download s = 0")
  case True
  then show ?thesis using assms(1) by (simp add: get_speed_def)
next
  case False
  with assms(2) obtain k where k: "k < 6" "1024 ^ k \<le> real (Global_Download s) / t0"
    "real (Global_Download s) / t0 < 1024 ^ Suc k" by blast
  have pos: "0 < real (Global_Download s) / t0" using k(2) by (smt (verit) zero_less_power)
  from floor_log_1024 [OF k(2,3)] units_nth [OF k(1)] pos False assms(1)
  show ?thesis by (simp add: get_speed_def Let_def)
qed

lemma progress_round_returns:
  assumes "queue_size s \<noteq> 0" and "t0 \<noteq> 0"
    and "Global_Download s = 0
         \<or> (\<exists>k < 6. 1024 ^ k \<le> real (Global_Download s) / t0
                   \<and> real (Global_Download s) / t0 < 1024 ^ Suc k)"
  shows "\<exists>line. progress_round t0 s
           = Inr (s\<lparr>Global_Download := 0, trace := trace s @ [StatusLine line]\<rparr>)"
proof -
  from get_speed_returns [OF assms(2,3)] obtain sp where
    "get_speed t0 s = (Inr sp, s\<lparr>Global_Download := 0\<rparr>)" by blast
  with assms(1) show ?thesis
    by (auto simp: progress_round_def Let_def)
qed

lemma print_progress_Some_finished:
  assumes "print_progress clock k s = Some r"
  shows "(\<forall>j. clock j \<noteq> 0) \<longrightarrow> queue_size s \<noteq> 0 \<longrightarrow> Global_Download s = 0
         \<longrightarrow> finished_download s = queue_size s"
proof (rule print_progress.raw_induct
    [where P = "\<lambda>clock k s r. (\<forall>j. clock j \<noteq> 0) \<longrightarrow> queue_size s \<noteq> 0
                  \<longrightarrow> Global_Download s = 0 \<longrightarrow> finished_download s = queue_size s",
     OF _ assms])
  fix pp :: "(nat \<Rightarrow> real) \<Rightarrow> nat \<Rightarrow> state \<Rightarrow> (error + state) option"
    and clock k s r
  assume IH: "\<And>clock k s r. pp clock k s = Some r \<Longrightarrow>
      (\<forall>j. clock j \<noteq> 0) \<longrightarrow> queue_size s \<noteq> 0 \<longrightarrow> Global_Download s = 0
         \<longrightarrow> finished_download s = queue_size s"
    and body: "(if finished_download s = queue_size s then Some (Inr s)
         else case progress_round (clock k) s of
                Inl e \<Rightarrow> Some (Inl e)
              | Inr s' \<Rightarrow> pp clock (Suc k) s') = Some r"
  show "(\<forall>j. clock j \<noteq> 0) \<longrightarrow> queue_size s \<noteq> 0 \<longrightarrow> Global_Download s = 0
         \<longrightarrow> finished_download s = queue_size s"
  proof (intro impI)
    assume c: "\<forall>j. clock j \<noteq> 0" and q: "queue_size s \<noteq> 0" and g: "Global_Download s = 0"
    show "finished_download s = queue_size s"
    proof (rule ccontr)
      assume ne: "finished_download s \<noteq> queue_size s"
      from c have t0: "clock k \<noteq> 0" by simp
      from progress_round_returns [OF q t0] g
      obtain line where pr: "progress_round (clock k) s
           = Inr (s\<lparr>Global_Download := 0, trace := trace s @ [StatusLine line]\<rparr>)" by blast
      let ?s' = "s\<lparr>Global_Download := 0, trace := trace s @ [StatusLine line]\<rparr>"
      from body ne pr have "pp clock (Suc k) ?s' = Some r" by simp
      from IH [OF this] c q have "finished_download ?s' = queue_size ?s'" by simp
      with ne show False by simp
    qed
  qed
qed

lemma print_progress_never_ends:
  assumes "finished_download s \<noteq> queue_size s"
    and "\<forall>j. clock j \<noteq> 0"
    and "queue_size s \<noteq> 0"
    and "Global_Download s = 0"
  shows "print_progress clock k s = None"
proof (cases "print_progress clock k s")
  case None
  then show ?thesis .
next
  case (Some r)
  from print_progress_Some_finished [OF Some] assms show ?thesis by simp
qed

lemma shared_destination_plan:
  "check_files ''/i'' [] Map.empty [0, 1] (\<lambda>i. \<lparr>user_id = ''456'', user_name = ''bob'', rank = ''1'',
                  image_urls = [''http://i.pximg.net/img/11_p0.png'']\<rparr>) ''/i'' False True
   = Inr \<lparr>illustrations = [0, 1],
          objects = (\<lambda>i. \<lparr>user_id = ''456'', user_name = ''bob'', rank = ''1'',
                  image_urls = [''http://i.pximg.net/img/11_p0.png'']\<rparr>),
          planned = [\<lparr>url = ''http://i.pximg.net/img/11_p0.png'', file' = ''1 - 11_p0.png'',
                  path = ''/i/1 - 11_p0.png''\<rparr>,
                     \<lparr>url = ''http://i.pximg.net/img/11_p0.png'', file' = ''1 - 11_p0.png'',
                  path = ''/i/1 - 11_p0.png''\<rparr>],
          count = 2\<rparr>"
  by (simp add: check_files_def get_filepath_def path_join_def path_exists_def Let_def)

lemma download_threading_empty: "download_queue s = [] \<Longrightarrow> download_threading net s = s"
  by (subst download_threading.simps) simp

lemma run_workers_empty: "download_queue s = [] \<Longrightarrow> run_workers n net s = s"
  by (induction n) (simp_all add: download_threading_empty)

lemma run_workers_drained:
  "download_queue (download_threading net s) = [] \<Longrightarrow>
   run_workers THREADING_NUMBER net s = download_threading net s"
proof -
  assume "download_queue (download_threading net s) = []"
  then have "run_workers 9 net (download_threading net s) = download_threading net s"
    by (rule run_workers_empty)
  moreover have "THREADING_NUMBER = Suc 9" by (simp add: THREADING_NUMBER_def)
  moreover have "run_workers (Suc 9) net s = run_workers 9 net (download_threading net s)"
    by (rule run_workers.simps)
  ultimately show ?thesis by metis
qed

lemma shared_destination_workers:
  "download_threading (\<lambda>n u. Reply \<lparr>status_code = 200, content_length = Some ''3'',
                          chunks = [[1, 2, 3]], broken = False\<rparr>)
     \<lparr>fs = Map.empty, Global_Download = 0, finished_download = 0, queue_size = 2,
         error_count = Map.empty,
         download_queue = [\<lparr>url = ''http://i.pximg.net/img/11_p0.png'', file' = ''1 - 11_p0.png'',
                  path = ''/i/1 - 11_p0.png''\<rparr>,
                           \<lparr>url = ''http://i.pximg.net/img/11_p0.png'', file' = ''1 - 11_p0.png'',
                  path = ''/i/1 - 11_p0.png''\<rparr>],
         unfinished_tasks = 2, trace = []\<rparr>
   = \<lparr>fs = [''/i'' \<mapsto> Dir, ''/i/1 - 11_p0.png'' \<mapsto> File [1, 2, 3]],
         Global_Download = 3, finished_download = 1, queue_size = 2,
         error_count = Map.empty, download_queue = [], unfinished_tasks = 0,
         trace = [Request ''http://i.pximg.net/img/11_p0.png'']\<rparr>"
  by (simp add: download_threading.simps worker_turn_def task_done_def download_file_def
        get_count_def MAX_ERROR_COUNT_def path_exists_def ensure_dir_i answer_def uncaught_def
        n_requests_def requests_codes_ok_def dirname_def basename_def rstrip_sep_def Let_def)

text \<open>
  C1 fails on the program. Two illustrations name the same URL; with the rank prefix both
  get the destination \<^verbatim>\<open>/i/1 - 11_p0.png\<close>, which does not exist, so the planner queues
  two tasks and the total is 2. Every request succeeds. The first task writes the file
  and the finished counter becomes 1; the second task finds the file, is taken off the
  queue and is counted nowhere. The queue is drained with the finished counter at 1, the
  loop of the reporter never ends, and \<^verbatim>\<open>download_illustrations\<close> does not return.
\<close>

theorem shared_destination_never_completes:
  "(\<exists>pl. check_files ''/i'' [] Map.empty [0, 1] (\<lambda>i. \<lparr>user_id = ''456'', user_name = ''bob'', rank = ''1'',
                  image_urls = [''http://i.pximg.net/img/11_p0.png'']\<rparr>) ''/i'' False True = Inr pl
        \<and> count pl = 2)
   \<and> finished_download (download_threading (\<lambda>n u. Reply \<lparr>status_code = 200, content_length = Some ''3'',
                          chunks = [[1, 2, 3]], broken = False\<rparr>)
         \<lparr>fs = Map.empty, Global_Download = 0, finished_download = 0, queue_size = 2,
         error_count = Map.empty,
         download_queue = [\<lparr>url = ''http://i.pximg.net/img/11_p0.png'', file' = ''1 - 11_p0.png'',
                  path = ''/i/1 - 11_p0.png''\<rparr>,
                           \<lparr>url = ''http://i.pximg.net/img/11_p0.png'', file' = ''1 - 11_p0.png'',
                  path = ''/i/1 - 11_p0.png''\<rparr>],
         unfinished_tasks = 2, trace = []\<rparr>) = 1
   \<and> download_queue (download_threading (\<lambda>n u. Reply \<lparr>status_code = 200, content_length = Some ''3'',
                          chunks = [[1, 2, 3]], broken = False\<rparr>)
         \<lparr>fs = Map.empty, Global_Download = 0, finished_download = 0, queue_size = 2,
         error_count = Map.empty,
         download_queue = [\<lparr>url = ''http://i.pximg.net/img/11_p0.png'', file' = ''1 - 11_p0.png'',
                  path = ''/i/1 - 11_p0.png''\<rparr>,
                           \<lparr>url = ''http://i.pximg.net/img/11_p0.png'', file' = ''1 - 11_p0.png'',
                  path = ''/i/1 - 11_p0.png''\<rparr>],
         unfinished_tasks = 2, trace = []\<rparr>) = []
   \<and> unfinished_tasks (download_threading (\<lambda>n u. Reply \<lparr>status_code = 200, content_length = Some ''3'',
                          chunks = [[1, 2, 3]], broken = False\<rparr>)
         \<lparr>fs = Map.empty, Global_Download = 0, finished_download = 0, queue_size = 2,
         error_count = Map.empty,
         download_queue = [\<lparr>url = ''http://i.pximg.net/img/11_p0.png'', file' = ''1 - 11_p0.png'',
                  path = ''/i/1 - 11_p0.png''\<rparr>,
                           \<lparr>url = ''http://i.pximg.net/img/11_p0.png'', file' = ''1 - 11_p0.png'',
                  path = ''/i/1 - 11_p0.png''\<rparr>],
         unfinished_tasks = 2, trace = []\<rparr>) = 0
   \<and> download_illustrations (\<lambda>n u. Reply \<lparr>status_code = 200, content_length = Some ''3'',
                          chunks = [[1, 2, 3]], broken = False\<rparr>) (\<lambda>k. 1) ''/i'' [] [0, 1]
       (\<lambda>i. \<lparr>user_id = ''456'', user_name = ''bob'', rank = ''1'',
                  image_urls = [''http://i.pximg.net/img/11_p0.png'']\<rparr>) ''/i'' False True
       \<lparr>fs = Map.empty, Global_Download = 0, finished_download = 0, queue_size = 0,
         error_count = Map.empty, download_queue = [], unfinished_tasks = 0, trace = []\<rparr> = None"
proof -
  let ?net = "(\<lambda>n u. Reply \<lparr>status_code = 200, content_length = Some ''3'',
                          chunks = [[1, 2, 3]], broken = False\<rparr>)"
  let ?s2 = "\<lparr>fs = [''/i'' \<mapsto> Dir, ''/i/1 - 11_p0.png'' \<mapsto> File [1, 2, 3]],
         Global_Download = 3, finished_download = 1, queue_size = 2,
         error_count = Map.empty, download_queue = [], unfinished_tasks = 0,
         trace = [Request ''http://i.pximg.net/img/11_p0.png'']\<rparr>"
  have round: "\<exists>line. progress_round 1 ?s2
           = Inr (?s2\<lparr>Global_Download := 0, trace := trace ?s2 @ [StatusLine line]\<rparr>)"
  proof (rule progress_round_returns)
    show "queue_size ?s2 \<noteq> 0" by simp
    show "(1::real) \<noteq> 0" by simp
    have "(0::nat) < 6 \<and> 1024 ^ 0 \<le> real (Global_Download ?s2) / 1
               \<and> real (Global_Download ?s2) / 1 < 1024 ^ Suc 0" by simp
    then show "Global_Download ?s2 = 0
         \<or> (\<exists>k < 6. 1024 ^ k \<le> real (Global_Download ?s2) / 1
                   \<and> real (Global_Download ?s2) / 1 < 1024 ^ Suc k)" by blast
  qed
  then obtain line where pr: "progress_round 1 ?s2
           = Inr (?s2\<lparr>Global_Download := 0, trace := trace ?s2 @ [StatusLine line]\<rparr>)"
    by blast
  let ?s3 = "?s2\<lparr>Global_Download := 0, trace := trace ?s2 @ [StatusLine line]\<rparr>"
  have "print_progress (\<lambda>k. 1) (Suc 0) ?s3 = None"
    by (rule print_progress_never_ends) simp_all
  then have rep: "print_progress (\<lambda>k. 1) 0 ?s2 = None"
    using pr by (subst print_progress.simps) simp
  have run: "start_and_wait_download_threading ?net (\<lambda>k. 1)
         \<lparr>fs = Map.empty, Global_Download = 0, finished_download = 0, queue_size = 2,
         error_count = Map.empty,
         download_queue = [\<lparr>url = ''http://i.pximg.net/img/11_p0.png'', file' = ''1 - 11_p0.png'',
                  path = ''/i/1 - 11_p0.png''\<rparr>,
                           \<lparr>url = ''http://i.pximg.net/img/11_p0.png'', file' = ''1 - 11_p0.png'',
                  path = ''/i/1 - 11_p0.png''\<rparr>],
         unfinished_tasks = 2, trace = []\<rparr> = None"
    using rep
    by (simp add: start_and_wait_download_threading_def run_workers_drained
          shared_destination_workers)
  have plan: "\<exists>pl. check_files ''/i'' [] Map.empty [0, 1] (\<lambda>i. \<lparr>user_id = ''456'', user_name = ''bob'', rank = ''1'',
                  image_urls = [''http://i.pximg.net/img/11_p0.png'']\<rparr>) ''/i'' False True = Inr pl
        \<and> count pl = 2"
    by (subst shared_destination_plan) simp
  have whole: "download_illustrations ?net (\<lambda>k. 1) ''/i'' [] [0, 1]
       (\<lambda>i. \<lparr>user_id = ''456'', user_name = ''bob'', rank = ''1'',
                  image_urls = [''http://i.pximg.net/img/11_p0.png'']\<rparr>) ''/i'' False True
       \<lparr>fs = Map.empty, Global_Download = 0, finished_download = 0, queue_size = 0,
         error_count = Map.empty, download_queue = [], unfinished_tasks = 0, trace = []\<rparr> = None"
    unfolding download_illustrations_def state.select_convs shared_destination_plan
    using run by (simp add: numeral_2_eq_2)
  show ?thesis
    using plan whole by (simp only: shared_destination_workers) simp
qed

subsection \<open>The retry bound\<close>









text \<open>
  Where the bound holds. In the rest of this section the turns do not overlap, no
  task of another URL has a destination of the failing URL, and the directory of every
  queued destination exists, so that no thread is ended by \<^verbatim>\<open>os.makedirs\<close>.
\<close>

lemma ensure_dir_present: "is_root d \<or> path_exists f d \<Longrightarrow> ensure_dir d f = (Inr (), f)"
  by (simp add: ensure_dir_def)

lemma download_file_fs_mono:
  "download_file rep u p s = (r, s') \<Longrightarrow> path_exists (fs s) q \<Longrightarrow> path_exists (fs s') q"
  by (auto simp: download_file_def path_exists_def Let_def
           split: reply.splits if_splits option.splits list.splits prod.splits)

lemma turn_effect:
  assumes q: "download_queue s = t1 # rest"
    and fails: "url t1 = u \<Longrightarrow> \<forall>p \<sigma>. fst (download_file rep u p \<sigma>) \<noteq> Inr ()"
    and mine: "\<forall>t \<in> set (download_queue s). (url t = u \<longrightarrow> path t \<in> P) \<and> (path t \<in> P \<longrightarrow> url t = u)"
    and absent: "\<forall>p \<in> P. \<not> path_exists (fs s) p"
    and dirs: "\<forall>t \<in> set (download_queue s).
                 is_root (dirname (path t)) \<or> path_exists (fs s) (dirname (path t))"
    and cap: "get_count (error_count s) u \<le> MAX_ERROR_COUNT"
  shows "\<exists>ev. trace (worker_turn rep s) = trace s @ ev
      \<and> uncaught (worker_turn rep s) = uncaught s
      \<and> set (download_queue (worker_turn rep s)) \<subseteq> set (download_queue s)
      \<and> (\<forall>p \<in> P. \<not> path_exists (fs (worker_turn rep s)) p)
      \<and> (\<forall>p. path_exists (fs s) p \<longrightarrow> path_exists (fs (worker_turn rep s)) p)
      \<and> (if url t1 = u
          then (if get_count (error_count s) u < MAX_ERROR_COUNT
                then filter (about u) ev = [Request u]
                   \<and> get_count (error_count (worker_turn rep s)) u = Suc (get_count (error_count s) u)
                   \<and> queued u (worker_turn rep s) = queued u s
                else filter (about u) ev = [CanceledMsg u]
                   \<and> get_count (error_count (worker_turn rep s)) u = get_count (error_count s) u
                   \<and> Suc (queued u (worker_turn rep s)) = queued u s)
          else filter (about u) ev = []
             \<and> get_count (error_count (worker_turn rep s)) u = get_count (error_count s) u
             \<and> queued u (worker_turn rep s) = queued u s)"
proof -
  have t1: "(url t1 = u \<longrightarrow> path t1 \<in> P) \<and> (path t1 \<in> P \<longrightarrow> url t1 = u)"
    using mine q by simp
  have d1: "ensure_dir (dirname (path t1)) (fs s) = (Inr (), fs s)"
    using dirs q by (simp add: ensure_dir_present)
  from q show ?thesis
  proof (cases rule: worker_turn_cases [where rep = rep])
    case retire
    show ?thesis
    proof (cases "url t1 = u")
      case True
      with retire q absent show ?thesis
        by (intro exI [of _ "[CanceledMsg u]"]) (auto simp: about_def uncaught_def queued_def)
    next
      case False
      with retire q absent show ?thesis
        by (intro exI [of _ "[CanceledMsg (url t1)]"]) (auto simp: about_def uncaught_def queued_def)
    qed
  next
    case skip
    from skip(2) absent t1 have "url t1 \<noteq> u" by auto
    with skip(3) q absent show ?thesis
      by (intro exI [of _ "[]"]) (auto simp: uncaught_def queued_def)
  next
    case (dies e f)
    with d1 show ?thesis by simp
  next
    case (ok x f s3)
    from ok(3) d1 have f: "f = fs s" by simp
    have ne: "url t1 \<noteq> u"
    proof
      assume "url t1 = u"
      with fails ok(4) show False by (metis fst_conv old.unit.exhaust)
    qed
    with t1 have pne: "path t1 \<notin> P" by auto
    have tr: "trace s3 = trace s @ [Request (url t1)]"
      using download_file_trace [OF ok(4)] by simp
    have f3: "fs s3 p = fs s p" if "p \<in> P" for p
    proof -
      from that pne have "p \<noteq> path t1" by auto
      from download_file_fs_other [OF ok(4) this] f show ?thesis by simp
    qed
    have mono: "\<And>p. path_exists (fs s) p \<Longrightarrow> path_exists (fs s3) p"
      using download_file_fs_mono [OF ok(4)] f by simp
    have q3: "download_queue s3 = rest" "error_count s3 = error_count s"
      using download_file_frame(1,2) [OF ok(4)] by auto
    from ok(5) tr f3 mono q3 q absent ne show ?thesis
      by (intro exI [of _ "[Request (url t1)]"])
         (auto simp: about_def path_exists_def uncaught_def queued_def)
  next
    case (fail e f s3)
    from fail(3) d1 have f: "f = fs s" by simp
    have tr: "trace s3 = trace s @ [Request (url t1)]"
      using download_file_trace [OF fail(4)] by simp
    have f3: "fs s3 = fs s"
      using download_file_fs_on_error [OF fail(4)] f by simp
    show ?thesis
    proof (cases "url t1 = u")
      case True
      with fail(1,5) tr f3 q absent show ?thesis
        by (intro exI [of _ "[Request (url t1), RetryMsg e (file' t1)]"])
           (auto simp: about_def get_count_def uncaught_def queued_def)
    next
      case False
      with fail(5) tr f3 q absent show ?thesis
        by (intro exI [of _ "[Request (url t1), RetryMsg e (file' t1)]"])
           (auto simp: about_def get_count_def uncaught_def queued_def)
    qed
  qed
qed


lemma run_effect:
  assumes "\<forall>n p \<sigma>. fst (download_file (net n u) u p \<sigma>) \<noteq> Inr ()"
    and "\<forall>t \<in> set (download_queue s). (url t = u \<longrightarrow> path t \<in> P) \<and> (path t \<in> P \<longrightarrow> url t = u)"
    and "\<forall>p \<in> P. \<not> path_exists (fs s) p"
    and "\<forall>t \<in> set (download_queue s).
           is_root (dirname (path t)) \<or> path_exists (fs s) (dirname (path t))"
    and "get_count (error_count s) u \<le> MAX_ERROR_COUNT"
  shows "\<exists>new. trace (download_threading net s) = trace s @ new
      \<and> filter (about u) new
          = replicate (if queued u s = 0 then 0 else MAX_ERROR_COUNT - get_count (error_count s) u)
              (Request u)
            @ replicate (queued u s) (CanceledMsg u)
      \<and> get_count (error_count (download_threading net s)) u
          = (if queued u s = 0 then get_count (error_count s) u else MAX_ERROR_COUNT)
      \<and> (\<forall>p \<in> P. \<not> path_exists (fs (download_threading net s)) p)
      \<and> uncaught (download_threading net s) = uncaught s
      \<and> download_queue (download_threading net s) = []"
  using assms
proof (induction net s rule: download_threading.induct)
  case (1 net s)
  let ?c = "get_count (error_count s) u"
  show ?case
  proof (cases "download_queue s = []")
    case True
    then have "download_threading net s = s" by (rule download_threading_empty)
    with True "1.prems"(3) show ?thesis by (simp add: queued_def)
  next
    case False
    then obtain t1 rest where q: "download_queue s = t1 # rest"
      by (cases "download_queue s") auto
    let ?rep = "answer net s"
    let ?s1 = "worker_turn ?rep s"
    have f1: "url t1 = u \<Longrightarrow> \<forall>p \<sigma>. fst (download_file ?rep u p \<sigma>) \<noteq> Inr ()"
      using "1.prems"(1) q by (simp add: answer_def)
    from turn_effect [OF q f1 "1.prems"(2) "1.prems"(3) "1.prems"(4) "1.prems"(5)]
    obtain ev where ev: "trace ?s1 = trace s @ ev"
      and un: "uncaught ?s1 = uncaught s"
      and sub: "set (download_queue ?s1) \<subseteq> set (download_queue s)"
      and ab1: "\<forall>p \<in> P. \<not> path_exists (fs ?s1) p"
      and mono: "\<forall>p. path_exists (fs s) p \<longrightarrow> path_exists (fs ?s1) p"
      and eff: "if url t1 = u
          then (if ?c < MAX_ERROR_COUNT
                then filter (about u) ev = [Request u]
                   \<and> get_count (error_count ?s1) u = Suc ?c
                   \<and> queued u ?s1 = queued u s
                else filter (about u) ev = [CanceledMsg u]
                   \<and> get_count (error_count ?s1) u = ?c
                   \<and> Suc (queued u ?s1) = queued u s)
          else filter (about u) ev = []
             \<and> get_count (error_count ?s1) u = ?c
             \<and> queued u ?s1 = queued u s"
      by blast
    have run: "download_threading net s = download_threading net ?s1"
      using False un by (subst download_threading.simps) simp
    have nl: "\<not> uncaught s < uncaught ?s1" using un by simp
    have mine1: "\<forall>t \<in> set (download_queue ?s1).
        (url t = u \<longrightarrow> path t \<in> P) \<and> (path t \<in> P \<longrightarrow> url t = u)"
      using sub "1.prems"(2) by blast
    have dirs1: "\<forall>t \<in> set (download_queue ?s1).
           is_root (dirname (path t)) \<or> path_exists (fs ?s1) (dirname (path t))"
      using sub "1.prems"(4) mono by blast
    have cap1: "get_count (error_count ?s1) u \<le> MAX_ERROR_COUNT"
      using eff "1.prems"(5) by (auto split: if_splits)
    from "1.IH" [OF False nl "1.prems"(1) mine1 ab1 dirs1 cap1]
    obtain new where
      tr: "trace (download_threading net ?s1) = trace ?s1 @ new"
      and fl: "filter (about u) new
          = replicate (if queued u ?s1 = 0 then 0
                       else MAX_ERROR_COUNT - get_count (error_count ?s1) u) (Request u)
            @ replicate (queued u ?s1) (CanceledMsg u)"
      and cnt: "get_count (error_count (download_threading net ?s1)) u
          = (if queued u ?s1 = 0 then get_count (error_count ?s1) u else MAX_ERROR_COUNT)"
      and ab: "\<forall>p \<in> P. \<not> path_exists (fs (download_threading net ?s1)) p"
      and un': "uncaught (download_threading net ?s1) = uncaught ?s1"
      and em: "download_queue (download_threading net ?s1) = []"
      by blast
    have tr': "trace (download_threading net s) = trace s @ (ev @ new)"
      using run tr ev by simp
    have qpos: "url t1 = u \<Longrightarrow> 0 < queued u s" using q by (simp add: queued_def)
    have fl': "filter (about u) (ev @ new)
          = replicate (if queued u s = 0 then 0 else MAX_ERROR_COUNT - ?c) (Request u)
            @ replicate (queued u s) (CanceledMsg u)"
    proof (cases "url t1 = u")
      case True
      note u1 = True
      show ?thesis
      proof (cases "?c < MAX_ERROR_COUNT")
        case True
        with u1 eff have e: "filter (about u) ev = [Request u]"
          "get_count (error_count ?s1) u = Suc ?c" "queued u ?s1 = queued u s" by auto
        from True have "MAX_ERROR_COUNT - ?c = Suc (MAX_ERROR_COUNT - Suc ?c)" by arith
        with e fl qpos [OF u1] show ?thesis by simp
      next
        case False
        with u1 eff have e: "filter (about u) ev = [CanceledMsg u]"
          "get_count (error_count ?s1) u = ?c" "Suc (queued u ?s1) = queued u s" by auto
        from False "1.prems"(5) have c: "MAX_ERROR_COUNT - ?c = 0" by simp
        have "filter (about u) (ev @ new) = replicate (Suc (queued u ?s1)) (CanceledMsg u)"
          using e(1,2) fl c by simp
        with e(3) c show ?thesis by simp
      qed
    next
      case False
      with eff have e: "filter (about u) ev = []"
          "get_count (error_count ?s1) u = ?c" "queued u ?s1 = queued u s" by auto
      with fl show ?thesis by simp
    qed
    have cnt': "get_count (error_count (download_threading net s)) u
          = (if queued u s = 0 then ?c else MAX_ERROR_COUNT)"
    proof (cases "url t1 = u")
      case True
      note u1 = True
      show ?thesis
      proof (cases "?c < MAX_ERROR_COUNT")
        case True
        with u1 eff have e: "get_count (error_count ?s1) u = Suc ?c"
          "queued u ?s1 = queued u s" by auto
        with cnt run qpos [OF u1] show ?thesis by simp
      next
        case False
        with u1 eff have e: "get_count (error_count ?s1) u = ?c"
          "Suc (queued u ?s1) = queued u s" by auto
        from False "1.prems"(5) have "?c = MAX_ERROR_COUNT" by simp
        with e cnt run qpos [OF u1] show ?thesis by simp
      qed
    next
      case False
      with eff have e: "get_count (error_count ?s1) u = ?c" "queued u ?s1 = queued u s" by auto
      with cnt run show ?thesis by simp
    qed
    from tr' fl' cnt' ab un un' em run show ?thesis
      by (intro exI [of _ "ev @ new"]) simp
  qed
qed


text \<open>
  The finished counter in any run of the loop: it grows by one for every request that
  is not followed by a retry message and by one for every retirement, and by nothing
  else.
\<close>

lemma worker_turn_accounting:
  "finished_download (worker_turn rep s) + retried (worker_turn rep s) + n_requests s + retired s
   = finished_download s + retried s + n_requests (worker_turn rep s) + retired (worker_turn rep s)"
proof (cases "download_queue s")
  case Nil
  then show ?thesis by (simp add: worker_turn_def)
next
  case (Cons t rest)
  then show ?thesis
  proof (cases rule: worker_turn_cases [where rep = rep])
    case retire
    then show ?thesis by (simp add: retried_def retired_def n_requests_def)
  next
    case skip
    then show ?thesis by (simp add: retried_def retired_def n_requests_def)
  next
    case (dies e f)
    then show ?thesis by (simp add: retried_def retired_def n_requests_def)
  next
    case (ok x f s3)
    from download_file_frame(3) [OF ok(4)] download_file_trace [OF ok(4)] ok(5)
    show ?thesis by (simp add: retried_def retired_def n_requests_def)
  next
    case (fail e f s3)
    from download_file_frame(3) [OF fail(4)] download_file_trace [OF fail(4)] fail(5)
    show ?thesis by (simp add: retried_def retired_def n_requests_def)
  qed
qed

lemma download_threading_accounting:
  "finished_download (download_threading net s) + retried (download_threading net s)
     + n_requests s + retired s
   = finished_download s + retried s
     + n_requests (download_threading net s) + retired (download_threading net s)"
proof (induction net s rule: download_threading.induct)
  case (1 net s)
  let ?s1 = "worker_turn (answer net s) s"
  note step = worker_turn_accounting [of "answer net s" s]
  show ?case
  proof (cases "download_queue s = []")
    case True
    then show ?thesis by (simp add: download_threading_empty)
  next
    case False
    note ne = False
    show ?thesis
    proof (cases "uncaught s < uncaught ?s1")
      case True
      with ne have "download_threading net s = ?s1"
        by (subst download_threading.simps) simp
      with step show ?thesis by simp
    next
      case False
      with ne have "download_threading net s = download_threading net ?s1"
        by (subst download_threading.simps) simp
      with "1.IH" [OF ne False] step show ?thesis by simp
    qed
  qed
qed

text \<open>
  Let every request for the URL \<open>u\<close> fail, \<open>u\<close> be new to the error map and queued at
  least once, the destinations of its tasks be absent and be the destination of no task
  of another URL, and the directories exist. Then one worker empties the queue: it sends
  exactly \<^verbatim>\<open>_MAX_ERROR_COUNT\<close> requests for \<open>u\<close>, then prints the retirement diagnostic once
  for every queued task of \<open>u\<close>; the count of \<open>u\<close> ends at the cap and the destinations
  are still absent. The other workers find the queue empty.
\<close>

lemma retry_bound_separate:
  assumes fails: "\<forall>n p \<sigma>. fst (download_file (net n u) u p \<sigma>) \<noteq> Inr ()"
    and new: "error_count s u = None"
    and some: "0 < queued u s"
    and absent: "\<forall>t \<in> set (download_queue s). url t = u \<longrightarrow> \<not> path_exists (fs s) (path t)"
    and own: "\<forall>t \<in> set (download_queue s). \<forall>t' \<in> set (download_queue s).
                url t = u \<and> path t' = path t \<longrightarrow> url t' = u"
    and dirs: "\<forall>t \<in> set (download_queue s).
                 is_root (dirname (path t)) \<or> path_exists (fs s) (dirname (path t))"
  shows "\<exists>new. trace (download_threading net s) = trace s @ new
      \<and> filter (about u) new
          = replicate MAX_ERROR_COUNT (Request u) @ replicate (queued u s) (CanceledMsg u)
      \<and> error_count (download_threading net s) u = Some MAX_ERROR_COUNT
      \<and> (\<forall>t \<in> set (download_queue s).
            url t = u \<longrightarrow> \<not> path_exists (fs (download_threading net s)) (path t))
      \<and> uncaught (download_threading net s) = uncaught s
      \<and> download_queue (download_threading net s) = []
      \<and> run_workers THREADING_NUMBER net s = download_threading net s"
proof -
  let ?P = "path ` {t \<in> set (download_queue s). url t = u}"
  have c0: "get_count (error_count s) u = 0" using new by (simp add: get_count_def)
  have mine: "\<forall>t \<in> set (download_queue s).
      (url t = u \<longrightarrow> path t \<in> ?P) \<and> (path t \<in> ?P \<longrightarrow> url t = u)"
    using own by auto
  have ab: "\<forall>p \<in> ?P. \<not> path_exists (fs s) p" using absent by auto
  have cap: "get_count (error_count s) u \<le> MAX_ERROR_COUNT" using c0 by simp
  from run_effect [where net = net and u = u and s = s and P = ?P, OF fails mine ab dirs cap]
  obtain new where
    tr: "trace (download_threading net s) = trace s @ new"
    and fl: "filter (about u) new
          = replicate (if queued u s = 0 then 0 else MAX_ERROR_COUNT - get_count (error_count s) u)
              (Request u)
            @ replicate (queued u s) (CanceledMsg u)"
    and cnt: "get_count (error_count (download_threading net s)) u
          = (if queued u s = 0 then get_count (error_count s) u else MAX_ERROR_COUNT)"
    and ab': "\<forall>p \<in> ?P. \<not> path_exists (fs (download_threading net s)) p"
    and un: "uncaught (download_threading net s) = uncaught s"
    and em: "download_queue (download_threading net s) = []"
    by blast
  from cnt some have "error_count (download_threading net s) u = Some MAX_ERROR_COUNT"
    by (auto simp: get_count_def MAX_ERROR_COUNT_def split: option.splits)
  moreover from fl some c0 have "filter (about u) new
          = replicate MAX_ERROR_COUNT (Request u) @ replicate (queued u s) (CanceledMsg u)"
    by simp
  moreover from ab' have "\<forall>t \<in> set (download_queue s).
            url t = u \<longrightarrow> \<not> path_exists (fs (download_threading net s)) (path t)" by auto
  moreover from em have "run_workers THREADING_NUMBER net s = download_threading net s"
    by (rule run_workers_drained)
  ultimately show ?thesis using tr un em by blast
qed

lemma retry_bound_separate_instance:
  "\<exists>new.
     trace (download_threading
       (\<lambda>n u. if u = ''http://i.pximg.net/img/11_p0.png'' then NoReply
              else Reply \<lparr>status_code = 200, content_length = Some ''3'',
                           chunks = [[1, 2, 3]], broken = False\<rparr>)
       \<lparr>fs = [''/i'' \<mapsto> Dir], Global_Download = 0, finished_download = 0, queue_size = 2,
        error_count = Map.empty,
        download_queue =
          [\<lparr>url = ''http://i.pximg.net/img/11_p0.png'', file' = ''11_p0.png'',
             path = ''/i/11_p0.png''\<rparr>,
           \<lparr>url = ''http://i.pximg.net/img/12_p0.png'', file' = ''12_p0.png'',
             path = ''/i/12_p0.png''\<rparr>],
        unfinished_tasks = 2, trace = []\<rparr>) = new
     \<and> filter (about ''http://i.pximg.net/img/11_p0.png'') new
         = replicate MAX_ERROR_COUNT (Request ''http://i.pximg.net/img/11_p0.png'')
           @ [CanceledMsg ''http://i.pximg.net/img/11_p0.png'']"
proof -
  let ?u = "''http://i.pximg.net/img/11_p0.png''"
  let ?net = "(\<lambda>(n::nat) u. if u = ?u then NoReply
              else Reply \<lparr>status_code = 200, content_length = Some ''3'',
                           chunks = [[1, 2, 3]], broken = False\<rparr>)"
  let ?s = "\<lparr>fs = [''/i'' \<mapsto> Dir], Global_Download = 0, finished_download = 0, queue_size = 2,
        error_count = Map.empty,
        download_queue =
          [\<lparr>url = ?u, file' = ''11_p0.png'', path = ''/i/11_p0.png''\<rparr>,
           \<lparr>url = ''http://i.pximg.net/img/12_p0.png'', file' = ''12_p0.png'',
             path = ''/i/12_p0.png''\<rparr>],
        unfinished_tasks = 2, trace = []\<rparr>"
  have h1: "\<forall>n p \<sigma>. fst (download_file (?net n ?u) ?u p \<sigma>) \<noteq> Inr ()"
    by (simp add: download_file_def)
  have h2: "error_count ?s ?u = None" by simp
  have h3: "0 < queued ?u ?s" by (simp add: queued_def)
  have h4: "\<forall>t \<in> set (download_queue ?s). url t = ?u \<longrightarrow> \<not> path_exists (fs ?s) (path t)"
    by (simp add: path_exists_def)
  have h5: "\<forall>t \<in> set (download_queue ?s). \<forall>t' \<in> set (download_queue ?s).
                url t = ?u \<and> path t' = path t \<longrightarrow> url t' = ?u" by simp
  have h6: "\<forall>t \<in> set (download_queue ?s).
                 is_root (dirname (path t)) \<or> path_exists (fs ?s) (dirname (path t))"
    by (simp add: path_exists_def dirname_def basename_def rstrip_sep_def)
  from retry_bound_separate [where net = ?net and s = ?s and u = ?u, OF h1 h2 h3 h4 h5 h6]
  show ?thesis by (simp add: queued_def)
qed

end
